theory Spec2Isabelle
  imports Complex_Main "HOL-Library.Sublist"
begin

section \<open>Data model\<close>

text \<open>
  The token decisions, animation steps and view models of
  \<^verbatim>\<open>src/components/dashboard-body.tsx\<close> and \<^verbatim>\<open>src/components/chat-stream.tsx\<close>,
  and the stream messages of \<^verbatim>\<open>src/lib/types.ts\<close>.
  JavaScript strings are modelled as \<^typ>\<open>string\<close>, counters and indices as \<^typ>\<open>nat\<close>,
  the remaining numbers (rates, times, savings) as double-precision floating-point numbers.
\<close>

subsection \<open>JavaScript numbers\<close>

text \<open>
  A number is an IEEE 754 binary64 value: not-a-number, an infinity with its sign, or a
  finite value \<open>Finite sg m e\<close> that stands for \<^verbatim>\<open>(-1)^sg * m * 2^e\<close>, with the sign \<open>sg\<close>
  (true for negative), the integral significand \<^verbatim>\<open>m < 2^53\<close> and the exponent
  \<open>-1074 \<le> e \<le> 971\<close>. Every finite value has one representation: the significand is at
  least \<^verbatim>\<open>2^52\<close> unless the exponent is \<open>-1074\<close> (the subnormal numbers and the two
  zeros).
\<close>

datatype js_number = NaN | Infinity bool | Finite bool nat int


text \<open>The number of binary digits of a natural number.\<close>

fun bitlen :: "nat \<Rightarrow> nat" where
  "bitlen n = (if n = 0 then 0 else Suc (bitlen (n div 2)))"

declare bitlen.simps [simp del]

text \<open>
  Rounding to the nearest representable value, ties to the even significand: the value
  \<^verbatim>\<open>(-1)^sg * m * 2^e\<close> with any natural \<open>m\<close> and integer \<open>e\<close> is brought into the
  representation. A significand of more than 53 digits, or an exponent below \<open>-1074\<close>,
  is shifted right by \<open>sh\<close> digits; the digits shifted out decide the rounding. What
  exceeds the largest finite value becomes an infinity.
\<close>

definition round_pack :: "bool \<Rightarrow> nat \<Rightarrow> int \<Rightarrow> js_number" where
  "round_pack sg m e =
     (if m = 0 then Finite sg 0 (- 1074)
      else
        let k = int (bitlen m);
            sh = max (k - 53) (- 1074 - e)
        in if sh \<le> 0 then
             (let l = min (53 - k) (e + 1074)
              in if e - l > 971 then Infinity sg else Finite sg (m * 2 ^ nat l) (e - l))
           else
             (let q = m div 2 ^ nat sh;
                  r = m mod 2 ^ nat sh;
                  half = 2 ^ nat (sh - 1);
                  q1 = (if r > half \<or> (r = half \<and> odd q) then q + 1 else q);
                  q2 = (if q1 = 2 ^ 53 then 2 ^ 52 else q1);
                  e2 = (if q1 = 2 ^ 53 then e + sh + 1 else e + sh)
              in if e2 > 971 then Infinity sg else Finite sg q2 e2))"

text \<open>The product \<^verbatim>\<open>x * y\<close>: the exact product, rounded.\<close>

fun js_mul :: "js_number \<Rightarrow> js_number \<Rightarrow> js_number" where
  "js_mul NaN y = NaN"
| "js_mul x NaN = NaN"
| "js_mul (Infinity a) (Infinity b) = Infinity (a \<noteq> b)"
| "js_mul (Infinity a) (Finite b n f) = (if n = 0 then NaN else Infinity (a \<noteq> b))"
| "js_mul (Finite a m e) (Infinity b) = (if m = 0 then NaN else Infinity (a \<noteq> b))"
| "js_mul (Finite a m e) (Finite b n f) = round_pack (a \<noteq> b) (m * n) (e + f)"

text \<open>The quotient \<^verbatim>\<open>x / y\<close>: the exact quotient, rounded. The quotient of the significands
  is computed to at least 56 digits, with one more digit that records whether the division
  left a remainder.\<close>

fun js_div :: "js_number \<Rightarrow> js_number \<Rightarrow> js_number" where
  "js_div NaN y = NaN"
| "js_div x NaN = NaN"
| "js_div (Infinity a) (Infinity b) = NaN"
| "js_div (Infinity a) (Finite b n f) = Infinity (a \<noteq> b)"
| "js_div (Finite a m e) (Infinity b) = Finite (a \<noteq> b) 0 (- 1074)"
| "js_div (Finite a m e) (Finite b n f) =
     (if n = 0 then (if m = 0 then NaN else Infinity (a \<noteq> b))
      else if m = 0 then Finite (a \<noteq> b) 0 (- 1074)
      else
        let sc = 55 + bitlen n;
            num = m * 2 ^ sc;
            q = num div n;
            sticky = (if num mod n = 0 then 0 else 1)
        in round_pack (a \<noteq> b) (2 * q + sticky) (e - f - int sc - 1))"

text \<open>The number that an integer literal, or an integer of a JSON text, denotes; and the
  number that the decimal literal with the value \<open>n / d\<close> denotes, which is the
  representable value nearest to \<open>n / d\<close> (here \<open>n\<close> and \<open>d\<close> are below \<^verbatim>\<open>2^53\<close>, so
  the rounded quotient is that value).\<close>

definition js_of_int :: "int \<Rightarrow> js_number" where
  "js_of_int i = round_pack (i < 0) (nat \<bar>i\<bar>) 0"

definition js_lit :: "int \<Rightarrow> int \<Rightarrow> js_number" where
  "js_lit n d = js_div (js_of_int n) (js_of_int d)"

subsection \<open>Tokens, steps and messages\<close>

datatype token_type = Accepted | Rejected | Corrected

record token =
  tok_text :: string
  tok_type :: token_type

text \<open>\<^verbatim>\<open>AnimStep\<close>: an accepted step with its token and index, or a rejection step with the
  rejected token, the corrected token and their two indices.\<close>

datatype anim_step =
    AcceptedStep token nat
  | RejectionStep token token nat nat

datatype network_phase = Idle | Drafting | Verifying | Correcting | Complete

datatype render_phase = Appearing | Striking | Struck | Hidden | Settled

record visible_token =
  vt_text :: string
  vt_type :: token_type
  vt_phase :: render_phase

record token_counts =
  accepted :: nat
  rejected :: nat
  corrected :: nat
  drafted :: nat

datatype lane = Draft | Verify

datatype direction = Ltr | Rtl

record packet_event =
  pkt_id :: nat
  pkt_direction :: direction
  pkt_lane :: lane
  pkt_color :: string

text \<open>The messages of the streaming protocol (\<^verbatim>\<open>TokenEvent\<close>, \<^verbatim>\<open>RoundEvent\<close>,
  \<^verbatim>\<open>InferenceResponse\<close>, \<^verbatim>\<open>StreamMessage\<close>).\<close>

record token_event =
  te_text :: string
  te_type :: token_type
  te_token_id :: "int option"
  te_logprob :: "js_number option"

record round_event =
  re_round_num :: int
  re_drafted :: int
  re_accepted :: int
  re_corrected :: int
  re_verification_time_ms :: js_number
  re_acceptance_rate :: js_number

record inference_response =
  ir_request_id :: string
  ir_generated_text :: string
  ir_tokens :: "token_event list"
  ir_total_tokens :: int
  ir_draft_tokens_generated :: int
  ir_draft_tokens_accepted :: int
  ir_generation_time_ms :: js_number
  ir_acceptance_rate :: js_number
  ir_speculation_rounds :: int

datatype stream_message =
    TokenMsg token_event
  | RoundMsg round_event
  | DoneMsg inference_response
  | ErrorMsg string

section \<open>Step segmenter\<close>

text \<open>\<^verbatim>\<open>buildSteps\<close> (the same function in both components): the while loop over the
  cursor \<open>i\<close>, pushing onto \<open>steps\<close>.\<close>

function buildSteps_loop :: "token list \<Rightarrow> nat \<Rightarrow> anim_step list \<Rightarrow> anim_step list" where
  "buildSteps_loop tokens i steps =
     (if i < length tokens then
        (let t = tokens ! i in
         if tok_type t = Rejected \<and> i + 1 < length tokens \<and> tok_type (tokens ! (i + 1)) = Corrected
         then buildSteps_loop tokens (i + 2) (steps @ [RejectionStep t (tokens ! (i + 1)) i (i + 1)])
         else buildSteps_loop tokens (i + 1) (steps @ [AcceptedStep t i]))
      else steps)"
  by pat_completeness auto
termination
  by (relation "measure (\<lambda>(tokens, i, steps). length tokens - i)") auto

declare buildSteps_loop.simps [simp del]

definition buildSteps :: "token list \<Rightarrow> anim_step list" where
  "buildSteps tokens = buildSteps_loop tokens 0 []"

text \<open>The segmentation rule as the specification words it, on the remaining input with the
  cursor position \<open>k\<close>: a rejected token directly followed by a corrected one is consumed as a
  pair, anything else is consumed alone.\<close>

fun segment_rule :: "nat \<Rightarrow> token list \<Rightarrow> anim_step list" where
  "segment_rule k [] = []"
| "segment_rule k [t] = [AcceptedStep t k]"
| "segment_rule k (t # u # rest) =
     (if tok_type t = Rejected \<and> tok_type u = Corrected
      then RejectionStep t u k (k + 1) # segment_rule (k + 2) rest
      else AcceptedStep t k # segment_rule (k + 1) (u # rest))"

section \<open>Word counting\<close>

text \<open>
  \<^verbatim>\<open>countWords(text) = text.trim().split(/\s+/).filter(Boolean).length\<close>.
  A character is a code unit below 256 here. The white space of \<^verbatim>\<open>\s\<close> and of \<^verbatim>\<open>trim\<close>
  (the white space and line terminator code points of the language) has seven members in
  that range: tab, line feed, vertical tab, form feed, carriage return, space and the
  no-break space \<open>0xA0\<close>.
\<close>

definition is_space :: "char \<Rightarrow> bool" where
  "is_space c = (c = CHR 0x09 \<or> c = CHR 0x0A \<or> c = CHR 0x0B \<or> c = CHR 0x0C \<or> c = CHR 0x0D \<or>
                 c = CHR 0x20 \<or> c = CHR 0xA0)"

definition trim :: "string \<Rightarrow> string" where
  "trim s = rev (dropWhile is_space (rev (dropWhile is_space s)))"

text \<open>\<^verbatim>\<open>split(/\s+/)\<close>: the fields between maximal runs of white space; a separator at
  either end leaves an empty field there, and the empty string gives one empty field.\<close>

function split_ws :: "string \<Rightarrow> string list" where
  "split_ws s =
     (case dropWhile (\<lambda>c. \<not> is_space c) s of
        [] \<Rightarrow> [takeWhile (\<lambda>c. \<not> is_space c) s]
      | c # rest \<Rightarrow> takeWhile (\<lambda>c. \<not> is_space c) s # split_ws (dropWhile is_space rest))"
  by pat_completeness auto
termination
proof (relation "measure length")
  show "wf (measure length)" by simp
next
  fix s :: string and c rest
  assume a: "dropWhile (\<lambda>c. \<not> is_space c) s = c # rest"
  have "length (dropWhile is_space rest) \<le> length rest"
    by (rule length_dropWhile_le)
  moreover have "length (c # rest) \<le> length s"
    unfolding a [symmetric] by (rule length_dropWhile_le)
  ultimately show "(dropWhile is_space rest, s) \<in> measure length"
    by simp
qed

declare split_ws.simps [simp del]

definition countWords :: "string \<Rightarrow> nat" where
  "countWords text = length (filter (\<lambda>w. w \<noteq> []) (split_ws (trim text)))"





section \<open>The dashboard component\<close>

text \<open>
  The state of \<^verbatim>\<open>DashboardBody\<close>: its React state, its refs, the pending \<^verbatim>\<open>setTimeout\<close>
  callbacks and, for every call of \<^verbatim>\<open>handleSubmit\<close>, the variables that call's closures
  share (\<^verbatim>\<open>tokenQueue\<close>, \<^verbatim>\<open>processing\<close>) together with the state of its transport.
\<close>

record live_run =
  tokenQueue :: "token_event list"
  processing :: bool
  transportOpen :: bool

text \<open>A scheduled callback. The callbacks of the demo's rejection chain close over the
  step's two tokens, those of the live queue over the run they belong to.\<close>

datatype callback =
    ProcessDemoStep
  | DemoStrike token token
  | DemoHide token token
  | DemoCorrect token token
  | DemoSettle
  | ProcessTokenQueue nat
  | LiveStrike nat
  | LiveHide nat
  | LiveFilter nat
  | LiveSettle nat
  | CheckDone nat

record word_buffer =
  draft :: nat
  verify :: nat

record dashboard =
  phase :: network_phase
  prompt :: string
  visibleTokens :: "visible_token list"
  done_flag :: bool
  counts :: token_counts
  packets :: "packet_event list"
  isStreaming :: bool
  backendOnline :: "bool option"
  acceptanceRate :: js_number
  totalInferenceTimeSavedMs :: js_number
  costSavingsDollars :: js_number
  packetId :: nat
  packetWordBuffer :: word_buffer
  streamStartMs :: nat
  generatedOutputTokens :: nat
  acceptedDraftTokens :: int
  stepIdx :: nat
  timeoutRef :: "nat option"
  cleanupRef :: "nat option"
  timers :: "(nat \<times> nat \<times> callback) list"
  nextTimer :: nat
  runs :: "live_run list"

definition DEMO_PROMPT :: string where
  "DEMO_PROMPT = ''Explain the theory of relativity.''"

definition ACCEPTED_DELAY :: nat where "ACCEPTED_DELAY = 60"
definition REJECTED_SHOW_DELAY :: nat where "REJECTED_SHOW_DELAY = 80"
definition STRIKE_PAUSE :: nat where "STRIKE_PAUSE = 500"
definition INITIAL_DELAY :: nat where "INITIAL_DELAY = 800"
definition STREAM_TOKEN_DELAY :: nat where "STREAM_TOKEN_DELAY = 20"
definition WORDS_PER_PACKET :: nat where "WORDS_PER_PACKET = 3"
definition ESTIMATED_CLOUD_COST_PER_1K_TOKENS_USD :: js_number where
  "ESTIMATED_CLOUD_COST_PER_1K_TOKENS_USD = js_lit 5 10"
definition ESTIMATED_TIME_SAVED_PER_ACCEPTED_TOKEN_MS :: js_number where
  "ESTIMATED_TIME_SAVED_PER_ACCEPTED_TOKEN_MS = js_of_int 12"

text \<open>The component as first rendered (the initial metrics are the literals 82, 320 and
  0.42). Timer ids start at 1, as the browser's do.\<close>

definition init_dashboard :: dashboard where
  "init_dashboard =
     \<lparr> phase = Idle, prompt = DEMO_PROMPT, visibleTokens = [], done_flag = False,
       counts = \<lparr> accepted = 0, rejected = 0, corrected = 0, drafted = 0 \<rparr>,
       packets = [], isStreaming = False, backendOnline = None,
       acceptanceRate = js_of_int 82, totalInferenceTimeSavedMs = js_of_int 320,
       costSavingsDollars = js_lit 42 100,
       packetId = 0, packetWordBuffer = \<lparr> draft = 0, verify = 0 \<rparr>,
       streamStartMs = 0, generatedOutputTokens = 0, acceptedDraftTokens = 0,
       stepIdx = 0, timeoutRef = None, cleanupRef = None,
       timers = [], nextTimer = 1, runs = [] \<rparr>"

subsection \<open>Timers\<close>

text \<open>\<^verbatim>\<open>setTimeout(cb, delay)\<close> without keeping the id, \<^verbatim>\<open>timeoutRef.current = setTimeout(cb, delay)\<close>,
  and \<^verbatim>\<open>clearTimeout(id)\<close>.\<close>

definition setTimeout :: "callback \<Rightarrow> nat \<Rightarrow> dashboard \<Rightarrow> dashboard" where
  "setTimeout cb delay s =
     s\<lparr> timers := timers s @ [(nextTimer s, delay, cb)], nextTimer := nextTimer s + 1 \<rparr>"

definition setTimeout_ref :: "callback \<Rightarrow> nat \<Rightarrow> dashboard \<Rightarrow> dashboard" where
  "setTimeout_ref cb delay s = (setTimeout cb delay s)\<lparr> timeoutRef := Some (nextTimer s) \<rparr>"

definition clearTimeout :: "nat \<Rightarrow> dashboard \<Rightarrow> dashboard" where
  "clearTimeout tid s = s\<lparr> timers := filter (\<lambda>t. fst t \<noteq> tid) (timers s) \<rparr>"

subsection \<open>Packet throttler\<close>

definition buffer_of :: "lane \<Rightarrow> word_buffer \<Rightarrow> nat" where
  "buffer_of l b = (case l of Draft \<Rightarrow> draft b | Verify \<Rightarrow> verify b)"

definition buffer_set :: "lane \<Rightarrow> nat \<Rightarrow> word_buffer \<Rightarrow> word_buffer" where
  "buffer_set l n b = (case l of Draft \<Rightarrow> b\<lparr> draft := n \<rparr> | Verify \<Rightarrow> b\<lparr> verify := n \<rparr>)"

text \<open>\<^verbatim>\<open>emitPacket\<close>: take the next packet id and append the packet.\<close>

definition emitPacket :: "lane \<Rightarrow> string \<Rightarrow> dashboard \<Rightarrow> dashboard" where
  "emitPacket l color s =
     s\<lparr> packetId := packetId s + 1,
        packets := packets s @
          [\<lparr> pkt_id = packetId s, pkt_direction = (if l = Draft then Ltr else Rtl),
             pkt_lane = l, pkt_color = color \<rparr>] \<rparr>"

text \<open>The while loop of \<^verbatim>\<open>emitPacketForWords\<close>.\<close>

function emitPacket_loop :: "lane \<Rightarrow> string \<Rightarrow> dashboard \<Rightarrow> dashboard" where
  "emitPacket_loop l color s =
     (if buffer_of l (packetWordBuffer s) \<ge> WORDS_PER_PACKET then
        (let s1 = emitPacket l color s in
         emitPacket_loop l color
           (s1\<lparr> packetWordBuffer :=
                  buffer_set l (buffer_of l (packetWordBuffer s1) - WORDS_PER_PACKET)
                    (packetWordBuffer s1) \<rparr>))
      else s)"
  by pat_completeness auto
termination
  by (relation "measure (\<lambda>(l, color, s). buffer_of l (packetWordBuffer s))")
     (auto simp: emitPacket_def buffer_of_def buffer_set_def WORDS_PER_PACKET_def split: lane.splits)

declare emitPacket_loop.simps [simp del]

definition emitPacketForWords :: "lane \<Rightarrow> string \<Rightarrow> string \<Rightarrow> dashboard \<Rightarrow> dashboard" where
  "emitPacketForWords l color text s =
     (let words = countWords text in
      if words = 0 then s
      else emitPacket_loop l color
             (s\<lparr> packetWordBuffer :=
                   buffer_set l (buffer_of l (packetWordBuffer s) + words) (packetWordBuffer s) \<rparr>))"

text \<open>\<^verbatim>\<open>handlePacketDone\<close>.\<close>

definition handlePacketDone :: "nat \<Rightarrow> dashboard \<Rightarrow> dashboard" where
  "handlePacketDone i s = s\<lparr> packets := filter (\<lambda>p. pkt_id p \<noteq> i) (packets s) \<rparr>"

subsection \<open>Helpers on the visible tokens\<close>

text \<open>\<^verbatim>\<open>copy[copy.length - 1] = { ...copy[copy.length - 1], phase: p }\<close>. On an empty array the
  assignment goes to the property \<^verbatim>\<open>-1\<close> and the array keeps no element.\<close>

definition set_last_phase :: "render_phase \<Rightarrow> visible_token list \<Rightarrow> visible_token list" where
  "set_last_phase p vts =
     (if vts = [] then [] else vts[length vts - 1 := (vts ! (length vts - 1))\<lparr> vt_phase := p \<rparr>])"

text \<open>\<^verbatim>\<open>findLastIndex\<close>, with \<open>None\<close> for \<^verbatim>\<open>-1\<close>.\<close>

definition findLastIndex :: "('a \<Rightarrow> bool) \<Rightarrow> 'a list \<Rightarrow> nat option" where
  "findLastIndex P xs =
     (case filter (\<lambda>i. P (xs ! i)) (rev [0..<length xs]) of [] \<Rightarrow> None | i # _ \<Rightarrow> Some i)"

definition set_phase_at_last ::
  "token_type \<Rightarrow> render_phase \<Rightarrow> render_phase \<Rightarrow> visible_token list \<Rightarrow> visible_token list" where
  "set_phase_at_last ty from to vts =
     (case findLastIndex (\<lambda>t. vt_type t = ty \<and> vt_phase t = from) vts of
        None \<Rightarrow> vts
      | Some i \<Rightarrow> vts[i := (vts ! i)\<lparr> vt_phase := to \<rparr>])"

definition without_hidden :: "visible_token list \<Rightarrow> visible_token list" where
  "without_hidden vts = filter (\<lambda>t. vt_phase t \<noteq> Hidden) vts"

subsection \<open>Demo mode: the phase scheduler\<close>

definition color_green :: string where "color_green = ''hsl(142, 71%, 45%)''"
definition color_blue :: string where "color_blue = ''hsl(217, 91%, 60%)''"
definition color_yellow :: string where "color_yellow = ''hsl(48, 96%, 53%)''"

text \<open>\<^verbatim>\<open>processDemoStep\<close>, one function per timer firing. \<open>steps\<close> is the module constant
  \<^verbatim>\<open>DEMO_STEPS\<close>. The first firing of a rejection step is the else branch of
  \<open>processDemoStep\<close>; the four nested callbacks follow.\<close>

definition processDemoStep :: "anim_step list \<Rightarrow> dashboard \<Rightarrow> dashboard" where
  "processDemoStep steps s =
     (if stepIdx s \<ge> length steps then s\<lparr> done_flag := True, phase := Complete \<rparr>
      else
        let step = steps ! stepIdx s;
            s0 = s\<lparr> stepIdx := stepIdx s + 1 \<rparr>
        in case step of
          AcceptedStep tok idx \<Rightarrow>
            let s1 = s0\<lparr> phase := Drafting \<rparr>;
                s2 = emitPacketForWords Draft color_green (tok_text tok) s1;
                s3 = emitPacketForWords Verify color_blue (tok_text tok) s2;
                s4 = s3\<lparr> visibleTokens := visibleTokens s3 @
                        [\<lparr> vt_text = tok_text tok, vt_type = tok_type tok, vt_phase = Settled \<rparr>] \<rparr>;
                c = counts s4;
                s5 = s4\<lparr> counts := c\<lparr> drafted := drafted c + 1,
                        accepted := (if tok_type tok = Accepted then accepted c + 1 else accepted c),
                        corrected := (if tok_type tok = Corrected then corrected c + 1 else corrected c) \<rparr> \<rparr>
            in setTimeout_ref ProcessDemoStep ACCEPTED_DELAY s5
        | RejectionStep rej corr rejIdx corrIdx \<Rightarrow>
            let s1 = s0\<lparr> phase := Drafting \<rparr>;
                s2 = emitPacketForWords Draft color_green (tok_text rej) s1;
                s3 = s2\<lparr> visibleTokens := visibleTokens s2 @
                        [\<lparr> vt_text = tok_text rej, vt_type = Rejected, vt_phase = Appearing \<rparr>] \<rparr>;
                c = counts s3;
                s4 = s3\<lparr> counts := c\<lparr> drafted := drafted c + 1 \<rparr> \<rparr>
            in setTimeout_ref (DemoStrike rej corr) REJECTED_SHOW_DELAY s4)"

definition demoStrike :: "token \<Rightarrow> token \<Rightarrow> dashboard \<Rightarrow> dashboard" where
  "demoStrike rej corr s =
     (let s1 = s\<lparr> phase := Verifying \<rparr>;
          s2 = emitPacketForWords Verify color_yellow (tok_text rej) s1;
          s3 = s2\<lparr> visibleTokens := set_last_phase Striking (visibleTokens s2) \<rparr>;
          c = counts s3;
          s4 = s3\<lparr> counts := c\<lparr> rejected := rejected c + 1 \<rparr> \<rparr>
      in setTimeout_ref (DemoHide rej corr) STRIKE_PAUSE s4)"

definition demoHide :: "token \<Rightarrow> token \<Rightarrow> dashboard \<Rightarrow> dashboard" where
  "demoHide rej corr s =
     (let s1 = s\<lparr> visibleTokens := set_last_phase Hidden (visibleTokens s) \<rparr>
      in setTimeout_ref (DemoCorrect rej corr) 100 s1)"

definition demoCorrect :: "token \<Rightarrow> token \<Rightarrow> dashboard \<Rightarrow> dashboard" where
  "demoCorrect rej corr s =
     (let s1 = s\<lparr> phase := Correcting \<rparr>;
          s2 = emitPacketForWords Draft color_blue (tok_text corr) s1;
          s3 = emitPacketForWords Verify color_blue (tok_text corr) s2;
          s4 = s3\<lparr> visibleTokens := without_hidden (visibleTokens s3) @
                  [\<lparr> vt_text = tok_text corr, vt_type = Corrected, vt_phase = Appearing \<rparr>] \<rparr>;
          c = counts s4;
          s5 = s4\<lparr> counts := c\<lparr> drafted := drafted c + 1, corrected := corrected c + 1 \<rparr> \<rparr>
      in setTimeout_ref DemoSettle 150 s5)"

definition demoSettle :: "dashboard \<Rightarrow> dashboard" where
  "demoSettle s =
     (let s1 = s\<lparr> visibleTokens := set_last_phase Settled (visibleTokens s) \<rparr>;
          s2 = s1\<lparr> phase := Drafting \<rparr>
      in setTimeout_ref ProcessDemoStep ACCEPTED_DELAY s2)"

subsection \<open>Live mode: the token queue and the message handler\<close>

definition upd_run :: "nat \<Rightarrow> (live_run \<Rightarrow> live_run) \<Rightarrow> dashboard \<Rightarrow> dashboard" where
  "upd_run r f s = s\<lparr> runs := (runs s)[r := f (runs s ! r)] \<rparr>"

text \<open>\<^verbatim>\<open>processTokenQueue\<close> of the run \<open>r\<close>. Its timers are not stored in \<^verbatim>\<open>timeoutRef\<close>.\<close>

definition processTokenQueue :: "nat \<Rightarrow> dashboard \<Rightarrow> dashboard" where
  "processTokenQueue r s =
     (case tokenQueue (runs s ! r) of
        [] \<Rightarrow> upd_run r (\<lambda>q. q\<lparr> processing := False \<rparr>) s
      | tok # rest \<Rightarrow>
          let s0 = upd_run r (\<lambda>q. q\<lparr> processing := True, tokenQueue := rest \<rparr>) s in
          (case te_type tok of
            Accepted \<Rightarrow>
              let s1 = s0\<lparr> phase := Drafting \<rparr>;
                  s2 = emitPacketForWords Draft color_green (te_text tok) s1;
                  s3 = emitPacketForWords Verify color_blue (te_text tok) s2;
                  s4 = s3\<lparr> visibleTokens := visibleTokens s3 @
                          [\<lparr> vt_text = te_text tok, vt_type = Accepted, vt_phase = Settled \<rparr>] \<rparr>;
                  c = counts s4;
                  s5 = s4\<lparr> counts := c\<lparr> drafted := drafted c + 1, accepted := accepted c + 1 \<rparr> \<rparr>
              in setTimeout (ProcessTokenQueue r) STREAM_TOKEN_DELAY s5
          | Rejected \<Rightarrow>
              let s1 = s0\<lparr> phase := Verifying \<rparr>;
                  s2 = emitPacketForWords Draft color_green (te_text tok) s1;
                  s3 = emitPacketForWords Verify color_yellow (te_text tok) s2;
                  s4 = s3\<lparr> visibleTokens := visibleTokens s3 @
                          [\<lparr> vt_text = te_text tok, vt_type = Rejected, vt_phase = Appearing \<rparr>] \<rparr>;
                  c = counts s4;
                  s5 = s4\<lparr> counts := c\<lparr> drafted := drafted c + 1, rejected := rejected c + 1 \<rparr> \<rparr>
              in setTimeout (LiveStrike r) REJECTED_SHOW_DELAY s5
          | Corrected \<Rightarrow>
              let s1 = s0\<lparr> phase := Correcting \<rparr>;
                  s2 = emitPacketForWords Draft color_blue (te_text tok) s1;
                  s3 = emitPacketForWords Verify color_blue (te_text tok) s2;
                  s4 = s3\<lparr> visibleTokens := visibleTokens s3 @
                          [\<lparr> vt_text = te_text tok, vt_type = Corrected, vt_phase = Appearing \<rparr>] \<rparr>;
                  c = counts s4;
                  s5 = s4\<lparr> counts := c\<lparr> drafted := drafted c + 1, corrected := corrected c + 1 \<rparr> \<rparr>
              in setTimeout (LiveSettle r) 150 s5))"

definition liveStrike :: "nat \<Rightarrow> dashboard \<Rightarrow> dashboard" where
  "liveStrike r s =
     setTimeout (LiveHide r) STRIKE_PAUSE
       (s\<lparr> visibleTokens := set_phase_at_last Rejected Appearing Striking (visibleTokens s) \<rparr>)"

definition liveHide :: "nat \<Rightarrow> dashboard \<Rightarrow> dashboard" where
  "liveHide r s =
     setTimeout (LiveFilter r) 100
       (s\<lparr> visibleTokens := set_phase_at_last Rejected Striking Hidden (visibleTokens s) \<rparr>)"

definition liveFilter :: "nat \<Rightarrow> dashboard \<Rightarrow> dashboard" where
  "liveFilter r s = processTokenQueue r (s\<lparr> visibleTokens := without_hidden (visibleTokens s) \<rparr>)"

definition liveSettle :: "nat \<Rightarrow> dashboard \<Rightarrow> dashboard" where
  "liveSettle r s =
     setTimeout (ProcessTokenQueue r) STREAM_TOKEN_DELAY
       (s\<lparr> visibleTokens := set_last_phase Settled (visibleTokens s) \<rparr>)"

text \<open>\<^verbatim>\<open>updateLiveSavingsFromAcceptedTokens\<close>. The counter \<^verbatim>\<open>acceptedDraftTokens\<close> is
  kept as an integer and enters the arithmetic as the number it denotes.\<close>

definition updateLiveSavingsFromAcceptedTokens :: "dashboard \<Rightarrow> dashboard" where
  "updateLiveSavingsFromAcceptedTokens s =
     s\<lparr> totalInferenceTimeSavedMs :=
          js_mul (js_of_int (acceptedDraftTokens s)) ESTIMATED_TIME_SAVED_PER_ACCEPTED_TOKEN_MS,
        costSavingsDollars :=
          js_mul (js_div (js_of_int (acceptedDraftTokens s)) (js_of_int 1000))
            ESTIMATED_CLOUD_COST_PER_1K_TOKENS_USD \<rparr>"

text \<open>\<^verbatim>\<open>checkDone\<close> of the run \<open>r\<close>: finish once the queue has drained, poll again otherwise.\<close>

definition checkDone :: "nat \<Rightarrow> dashboard \<Rightarrow> dashboard" where
  "checkDone r s =
     (if tokenQueue (runs s ! r) = [] \<and> \<not> processing (runs s ! r)
      then s\<lparr> done_flag := True, phase := Complete, isStreaming := False \<rparr>
      else setTimeout (CheckDone r) 100 s)"

text \<open>The three callbacks given to \<^verbatim>\<open>streamInference\<close>, in the order on-message, on-error,
  on-close.\<close>

definition onMessage :: "nat \<Rightarrow> stream_message \<Rightarrow> dashboard \<Rightarrow> dashboard" where
  "onMessage r msg s =
     (case msg of
        TokenMsg d \<Rightarrow>
          let s1 = (if te_type d = Accepted
                    then updateLiveSavingsFromAcceptedTokens
                           (s\<lparr> acceptedDraftTokens := acceptedDraftTokens s + 1 \<rparr>)
                    else s);
              s2 = (if te_type d = Accepted \<or> te_type d = Corrected
                    then s1\<lparr> generatedOutputTokens := generatedOutputTokens s1 + 1 \<rparr>
                    else s1);
              s3 = upd_run r (\<lambda>q. q\<lparr> tokenQueue := tokenQueue q @ [d] \<rparr>) s2
          in if \<not> processing (runs s3 ! r) then processTokenQueue r s3 else s3
      | RoundMsg d \<Rightarrow> s\<lparr> acceptanceRate := js_mul (re_acceptance_rate d) (js_of_int 100) \<rparr>
      | DoneMsg d \<Rightarrow>
          let s1 = s\<lparr> acceptanceRate := js_mul (ir_acceptance_rate d) (js_of_int 100) \<rparr>;
              s2 = s1\<lparr> acceptedDraftTokens := ir_draft_tokens_accepted d \<rparr>;
              s3 = updateLiveSavingsFromAcceptedTokens s2
          in checkDone r s3
      | ErrorMsg m \<Rightarrow> s\<lparr> done_flag := True, phase := Idle, isStreaming := False \<rparr>)"

definition onError :: "dashboard \<Rightarrow> dashboard" where
  "onError s = s\<lparr> done_flag := True, phase := Idle, isStreaming := False \<rparr>"

definition onClose :: "dashboard \<Rightarrow> dashboard" where
  "onClose s = s\<lparr> isStreaming := False \<rparr>"

text \<open>Modelled from the spec: \<^verbatim>\<open>streamInference\<close> of \<^verbatim>\<open>@/lib/api\<close> is not among the sources.
  The handle it returns \<open>exposes a cleanup/cancel operation\<close>; here the cleanup of the run \<open>r\<close>
  closes that run's transport, after which none of its messages is delivered.\<close>

definition cleanup :: "nat \<Rightarrow> dashboard \<Rightarrow> dashboard" where
  "cleanup r s = upd_run r (\<lambda>q. q\<lparr> transportOpen := False \<rparr>) s"

text \<open>\<^verbatim>\<open>handleSubmit\<close>. \<open>now\<close> is the value of \<^verbatim>\<open>Date.now()\<close>. The state is reset first;
  then the timer in \<^verbatim>\<open>timeoutRef\<close> (if the ref is truthy) is cleared and the stored cleanup
  (if any) is called; then the new run's queue and transport are created.\<close>

definition handleSubmit :: "string \<Rightarrow> nat \<Rightarrow> dashboard \<Rightarrow> dashboard" where
  "handleSubmit userPrompt now s =
     (let s1 = s\<lparr> prompt := userPrompt, visibleTokens := [], done_flag := False,
                  counts := \<lparr> accepted = 0, rejected = 0, corrected = 0, drafted = 0 \<rparr>,
                  phase := Idle, isStreaming := True,
                  totalInferenceTimeSavedMs := js_of_int 0, costSavingsDollars := js_of_int 0,
                  packetWordBuffer := \<lparr> draft = 0, verify = 0 \<rparr>,
                  streamStartMs := now, generatedOutputTokens := 0, acceptedDraftTokens := 0 \<rparr>;
          s2 = (case timeoutRef s1 of
                  None \<Rightarrow> s1
                | Some tid \<Rightarrow> if tid \<noteq> 0 then clearTimeout tid s1 else s1);
          s3 = (case cleanupRef s2 of None \<Rightarrow> s2 | Some r \<Rightarrow> cleanup r s2);
          s4 = s3\<lparr> runs := runs s3 @
                  [\<lparr> tokenQueue = [], processing = False, transportOpen = True \<rparr>] \<rparr>
      in s4\<lparr> cleanupRef := Some (length (runs s3)) \<rparr>)"

text \<open>The effect that runs once the health probe has answered: in demo mode (backend
  offline) it resets the word buffers and schedules the first demo step.\<close>

definition health_effect :: "bool \<Rightarrow> dashboard \<Rightarrow> dashboard" where
  "health_effect online s =
     (let s1 = s\<lparr> backendOnline := Some online \<rparr>
      in if \<not> online
         then setTimeout_ref ProcessDemoStep INITIAL_DELAY
                (s1\<lparr> packetWordBuffer := \<lparr> draft = 0, verify = 0 \<rparr> \<rparr>)
         else s1)"

text \<open>The chat input is rendered with
  \<^verbatim>\<open>disabled={isStreaming || (!backendOnline && !done)}\<close>.\<close>

definition input_disabled :: "dashboard \<Rightarrow> bool" where
  "input_disabled s = (isStreaming s \<or> (backendOnline s \<noteq> Some True \<and> \<not> done_flag s))"

subsection \<open>Firing timers and delivering events\<close>

definition run_callback :: "anim_step list \<Rightarrow> callback \<Rightarrow> dashboard \<Rightarrow> dashboard" where
  "run_callback steps cb s =
     (case cb of
        ProcessDemoStep \<Rightarrow> processDemoStep steps s
      | DemoStrike rej corr \<Rightarrow> demoStrike rej corr s
      | DemoHide rej corr \<Rightarrow> demoHide rej corr s
      | DemoCorrect rej corr \<Rightarrow> demoCorrect rej corr s
      | DemoSettle \<Rightarrow> demoSettle s
      | ProcessTokenQueue r \<Rightarrow> processTokenQueue r s
      | LiveStrike r \<Rightarrow> liveStrike r s
      | LiveHide r \<Rightarrow> liveHide r s
      | LiveFilter r \<Rightarrow> liveFilter r s
      | LiveSettle r \<Rightarrow> liveSettle r s
      | CheckDone r \<Rightarrow> checkDone r s)"

text \<open>The pending timer \<open>tid\<close> fires: it leaves the pending set and its callback runs. Firing
  an id that is not pending does nothing.\<close>

definition fire :: "anim_step list \<Rightarrow> nat \<Rightarrow> dashboard \<Rightarrow> dashboard" where
  "fire steps tid s =
     (case find (\<lambda>t. fst t = tid) (timers s) of
        None \<Rightarrow> s
      | Some (i, delay, cb) \<Rightarrow> run_callback steps cb (clearTimeout tid s))"

text \<open>The timer whose id \<^verbatim>\<open>timeoutRef\<close> holds fires.\<close>

definition fire_ref :: "anim_step list \<Rightarrow> dashboard \<Rightarrow> dashboard" where
  "fire_ref steps s = (case timeoutRef s of None \<Rightarrow> s | Some tid \<Rightarrow> fire steps tid s)"

text \<open>Modelled from the spec: \<^verbatim>\<open>ChatInput\<close> and the transport behind \<^verbatim>\<open>streamInference\<close> are
  not among the sources. What can happen to the component: the health probe answers, the
  user submits a prompt, the transport of a run delivers a message, reports an error or
  closes, a pending timer fires, a packet's animation ends. A submit reaches
  \<^verbatim>\<open>handleSubmit\<close> only while the input is not disabled; a transport calls the callbacks
  of its run only while it is open.\<close>

datatype event =
    Health bool
  | Submit string nat
  | Message nat stream_message
  | TransportError nat
  | TransportClose nat
  | Fire nat
  | PacketDone nat

definition apply_event :: "anim_step list \<Rightarrow> event \<Rightarrow> dashboard \<Rightarrow> dashboard" where
  "apply_event steps ev s =
     (case ev of
        Health online \<Rightarrow> health_effect online s
      | Submit p now \<Rightarrow> if input_disabled s then s else handleSubmit p now s
      | Message r msg \<Rightarrow>
          if r < length (runs s) \<and> transportOpen (runs s ! r) then onMessage r msg s else s
      | TransportError r \<Rightarrow>
          if r < length (runs s) \<and> transportOpen (runs s ! r) then onError s else s
      | TransportClose r \<Rightarrow>
          if r < length (runs s) \<and> transportOpen (runs s ! r)
          then onClose (upd_run r (\<lambda>q. q\<lparr> transportOpen := False \<rparr>) s) else s
      | Fire tid \<Rightarrow> fire steps tid s
      | PacketDone i \<Rightarrow> handlePacketDone i s)"

definition run_events :: "anim_step list \<Rightarrow> event list \<Rightarrow> dashboard \<Rightarrow> dashboard" where
  "run_events steps evs s = foldl (\<lambda>st ev. apply_event steps ev st) s evs"

text \<open>Let the demo run: fire the timer in \<^verbatim>\<open>timeoutRef\<close> while it is pending, at most
  \<open>fuel\<close> times.\<close>

fun run_demo :: "nat \<Rightarrow> anim_step list \<Rightarrow> dashboard \<Rightarrow> dashboard" where
  "run_demo 0 steps s = s"
| "run_demo (Suc fuel) steps s =
     (case timeoutRef s of
        None \<Rightarrow> s
      | Some tid \<Rightarrow>
          if find (\<lambda>t. fst t = tid) (timers s) = None then s
          else run_demo fuel steps (fire steps tid s))"

subsection \<open>Auxiliary notions for the packet throttler\<close>

text \<open>The \<open>k\<close> packets that one run of the emission loop appends, with ids counting up from
  \<open>first\<close>.\<close>

definition new_packets :: "lane \<Rightarrow> string \<Rightarrow> nat \<Rightarrow> nat \<Rightarrow> packet_event list" where
  "new_packets l color first k =
     map (\<lambda>j. \<lparr> pkt_id = first + j, pkt_direction = (if l = Draft then Ltr else Rtl),
                 pkt_lane = l, pkt_color = color \<rparr>) [0..<k]"





text \<open>A \<^verbatim>\<open>done\<close> message that reports an acceptance rate of 0.75 and three accepted
  draft tokens.\<close>

definition done_example :: inference_response where
  "done_example =
     \<lparr> ir_request_id = ''r1'', ir_generated_text = ''The theory'', ir_tokens = [],
       ir_total_tokens = 2, ir_draft_tokens_generated = 4, ir_draft_tokens_accepted = 3,
       ir_generation_time_ms = js_of_int 10, ir_acceptance_rate = js_lit 75 100, ir_speculation_rounds = 1 \<rparr>"

text \<open>The canned token stream of the demo and its steps (\<^verbatim>\<open>DEMO_TOKEN_STREAM\<close>,
  \<^verbatim>\<open>DEMO_STEPS\<close>). A string is a sequence of 8-bit code units here; the superscript two of
  the one token that has it is the code unit \<open>0xB2\<close>.\<close>

definition DEMO_TOKEN_STREAM :: "token list" where
  "DEMO_TOKEN_STREAM =
     [
      \<lparr> tok_text = ''The'', tok_type = Accepted \<rparr>,
      \<lparr> tok_text = '' theory'', tok_type = Accepted \<rparr>,
      \<lparr> tok_text = '' of'', tok_type = Accepted \<rparr>,
      \<lparr> tok_text = '' relativity,'', tok_type = Accepted \<rparr>,
      \<lparr> tok_text = '' proposed'', tok_type = Accepted \<rparr>,
      \<lparr> tok_text = '' by'', tok_type = Accepted \<rparr>,
      \<lparr> tok_text = '' Albert'', tok_type = Accepted \<rparr>,
      \<lparr> tok_text = '' Einstein'', tok_type = Accepted \<rparr>,
      \<lparr> tok_text = '' in'', tok_type = Accepted \<rparr>,
      \<lparr> tok_text = '' the early'', tok_type = Rejected \<rparr>,
      \<lparr> tok_text = '' 1905'', tok_type = Corrected \<rparr>,
      \<lparr> tok_text = '' and'', tok_type = Accepted \<rparr>,
      \<lparr> tok_text = '' 1915,'', tok_type = Accepted \<rparr>,
      \<lparr> tok_text = '' fundamentally'', tok_type = Accepted \<rparr>,
      \<lparr> tok_text = '' changed'', tok_type = Rejected \<rparr>,
      \<lparr> tok_text = '' revolutionized'', tok_type = Corrected \<rparr>,
      \<lparr> tok_text = '' our'', tok_type = Accepted \<rparr>,
      \<lparr> tok_text = '' understanding'', tok_type = Accepted \<rparr>,
      \<lparr> tok_text = '' of'', tok_type = Accepted \<rparr>,
      \<lparr> tok_text = '' space'', tok_type = Accepted \<rparr>,
      \<lparr> tok_text = '' and'', tok_type = Accepted \<rparr>,
      \<lparr> tok_text = '' time.'', tok_type = Accepted \<rparr>,
      \<lparr> tok_text = '' Special'', tok_type = Accepted \<rparr>,
      \<lparr> tok_text = '' relativity'', tok_type = Accepted \<rparr>,
      \<lparr> tok_text = '' shows'', tok_type = Rejected \<rparr>,
      \<lparr> tok_text = '' demonstrates'', tok_type = Corrected \<rparr>,
      \<lparr> tok_text = '' that'', tok_type = Accepted \<rparr>,
      \<lparr> tok_text = '' the'', tok_type = Accepted \<rparr>,
      \<lparr> tok_text = '' speed'', tok_type = Accepted \<rparr>,
      \<lparr> tok_text = '' of'', tok_type = Accepted \<rparr>,
      \<lparr> tok_text = '' light'', tok_type = Accepted \<rparr>,
      \<lparr> tok_text = '' is'', tok_type = Accepted \<rparr>,
      \<lparr> tok_text = '' constant'', tok_type = Accepted \<rparr>,
      \<lparr> tok_text = '' for'', tok_type = Accepted \<rparr>,
      \<lparr> tok_text = '' all'', tok_type = Accepted \<rparr>,
      \<lparr> tok_text = '' observers,'', tok_type = Accepted \<rparr>,
      \<lparr> tok_text = '' leading'', tok_type = Accepted \<rparr>,
      \<lparr> tok_text = '' to'', tok_type = Accepted \<rparr>,
      \<lparr> tok_text = '' the'', tok_type = Accepted \<rparr>,
      \<lparr> tok_text = '' famous'', tok_type = Rejected \<rparr>,
      \<lparr> tok_text = '' iconic'', tok_type = Corrected \<rparr>,
      \<lparr> tok_text = '' equation'', tok_type = Accepted \<rparr>,
      \<lparr> tok_text = '' E=mc'' @ [CHR 0xB2] @ ''.'', tok_type = Accepted \<rparr>,
      \<lparr> tok_text = '' General'', tok_type = Accepted \<rparr>,
      \<lparr> tok_text = '' relativity'', tok_type = Accepted \<rparr>,
      \<lparr> tok_text = '' extends'', tok_type = Accepted \<rparr>,
      \<lparr> tok_text = '' this'', tok_type = Accepted \<rparr>,
      \<lparr> tok_text = '' by'', tok_type = Accepted \<rparr>,
      \<lparr> tok_text = '' explaining'', tok_type = Rejected \<rparr>,
      \<lparr> tok_text = '' describing'', tok_type = Corrected \<rparr>,
      \<lparr> tok_text = '' gravity'', tok_type = Accepted \<rparr>,
      \<lparr> tok_text = '' not'', tok_type = Accepted \<rparr>,
      \<lparr> tok_text = '' as'', tok_type = Accepted \<rparr>,
      \<lparr> tok_text = '' a'', tok_type = Accepted \<rparr>,
      \<lparr> tok_text = '' force,'', tok_type = Accepted \<rparr>,
      \<lparr> tok_text = '' but'', tok_type = Accepted \<rparr>,
      \<lparr> tok_text = '' as'', tok_type = Accepted \<rparr>,
      \<lparr> tok_text = '' a'', tok_type = Accepted \<rparr>,
      \<lparr> tok_text = '' curvature'', tok_type = Accepted \<rparr>,
      \<lparr> tok_text = '' of'', tok_type = Accepted \<rparr>,
      \<lparr> tok_text = '' spacetime'', tok_type = Accepted \<rparr>,
      \<lparr> tok_text = '' caused'', tok_type = Accepted \<rparr>,
      \<lparr> tok_text = '' by'', tok_type = Accepted \<rparr>,
      \<lparr> tok_text = '' mass'', tok_type = Rejected \<rparr>,
      \<lparr> tok_text = '' massive objects.'', tok_type = Corrected \<rparr> ]"

definition DEMO_STEPS :: "anim_step list" where
  "DEMO_STEPS = buildSteps DEMO_TOKEN_STREAM"

section \<open>The chat stream component\<close>

text \<open>
  The state of \<^verbatim>\<open>ChatStream\<close>: visible tokens, counts, the broadcast status, the status
  event log, its refs and its pending timers.

  A state setter called with an updater function during a timer callback does not run the
  updater: React queues it and runs the queued updaters, in call order, when it next
  renders, after the callback has returned. Of the component's updaters only the one that
  \<^verbatim>\<open>addEvent\<close> passes to \<^verbatim>\<open>setStatusEvents\<close> reads anything but the previous state and the
  values its closure holds (it reads \<^verbatim>\<open>eventIdRef.current\<close> and the clock), so it is the one
  whose deferral shows. Its queued calls are the field \<open>pendingStatusEvents\<close>; the other
  updates are applied where they are called.
\<close>

record stream_status =
  ss_phase :: network_phase
  currentToken :: string
  ss_counts :: token_counts

datatype status_event_type = EvDraft | EvVerified | EvRejected | EvCorrected

record status_event =
  ev_id :: nat
  ev_type :: status_event_type
  ev_token :: string
  ev_timestamp :: nat

datatype cs_callback =
    ProcessStep
  | CsStrike token token
  | CsHide token token
  | CsCorrect token token
  | CsSettle

record chat_stream =
  cs_visibleTokens :: "visible_token list"
  cs_done :: bool
  cs_counts :: token_counts
  status :: stream_status
  statusEvents :: "status_event list"
  pendingStatusEvents :: "(status_event_type \<times> string) list"
  eventIdRef :: nat
  cs_stepIdx :: nat
  cs_timeoutRef :: "nat option"
  cs_timers :: "(nat \<times> nat \<times> cs_callback) list"
  cs_nextTimer :: nat

text \<open>The component as first rendered.\<close>

definition init_chat_stream :: chat_stream where
  "init_chat_stream =
     \<lparr> cs_visibleTokens = [], cs_done = False,
       cs_counts = \<lparr> accepted = 0, rejected = 0, corrected = 0, drafted = 0 \<rparr>,
       status = \<lparr> ss_phase = Idle, currentToken = [],
                  ss_counts = \<lparr> accepted = 0, rejected = 0, corrected = 0, drafted = 0 \<rparr> \<rparr>,
       statusEvents = [], pendingStatusEvents = [], eventIdRef = 0, cs_stepIdx = 0, cs_timeoutRef = None,
       cs_timers = [], cs_nextTimer = 1 \<rparr>"

text \<open>\<^verbatim>\<open>xs.slice(-n)\<close>: the last \<open>n\<close> elements, all of them when there are fewer.\<close>

definition slice_last :: "nat \<Rightarrow> 'a list \<Rightarrow> 'a list" where
  "slice_last n xs = drop (length xs - n) xs"

text \<open>\<^verbatim>\<open>addEvent\<close>: the id ref is incremented at the call, and the updater is queued with
  the type and token it closes over.\<close>

definition addEvent :: "status_event_type \<Rightarrow> string \<Rightarrow> chat_stream \<Rightarrow> chat_stream" where
  "addEvent ty tok s =
     s\<lparr> eventIdRef := eventIdRef s + 1,
        pendingStatusEvents := pendingStatusEvents s @ [(ty, tok)] \<rparr>"

text \<open>The updater of \<^verbatim>\<open>addEvent\<close>, run on the state it finds:
  \<^verbatim>\<open>prev => [...prev, { id: eventIdRef.current, type, token, timestamp: Date.now() }].slice(-5)\<close>.
  \<open>now\<close> is the value of \<^verbatim>\<open>Date.now()\<close> in this run.\<close>

definition run_updater :: "status_event_type \<Rightarrow> string \<Rightarrow> nat \<Rightarrow> chat_stream \<Rightarrow> chat_stream" where
  "run_updater ty tok now s =
     (let next = statusEvents s @
            [\<lparr> ev_id = eventIdRef s, ev_type = ty, ev_token = tok, ev_timestamp = now \<rparr>]
      in s\<lparr> statusEvents := slice_last 5 next \<rparr>)"

text \<open>A render runs the queued updaters in call order and empties the queue. \<open>clock k\<close> is
  the clock reading of the \<open>k\<close>-th of them.\<close>

definition render :: "(nat \<Rightarrow> nat) \<Rightarrow> chat_stream \<Rightarrow> chat_stream" where
  "render clock s =
     (foldl (\<lambda>st (k, ty, tok). run_updater ty tok (clock k) st) s
        (enumerate 0 (pendingStatusEvents s)))
     \<lparr> pendingStatusEvents := [] \<rparr>"

text \<open>What can happen to the event log: a call of \<^verbatim>\<open>addEvent\<close>, or a render.\<close>

datatype log_op = AddEvent status_event_type string | Render "nat \<Rightarrow> nat"

fun run_log_op :: "chat_stream \<Rightarrow> log_op \<Rightarrow> chat_stream" where
  "run_log_op s (AddEvent ty tok) = addEvent ty tok s"
| "run_log_op s (Render clock) = render clock s"

definition run_log_ops :: "log_op list \<Rightarrow> chat_stream \<Rightarrow> chat_stream" where
  "run_log_ops ops s = foldl run_log_op s ops"

text \<open>The calls of \<^verbatim>\<open>addEvent\<close> among the operations, in call order.\<close>

fun event_calls :: "log_op list \<Rightarrow> (status_event_type \<times> string) list" where
  "event_calls [] = []"
| "event_calls (AddEvent ty tok # ops) = (ty, tok) # event_calls ops"
| "event_calls (Render clock # ops) = event_calls ops"

text \<open>The events that a sequence of operations appends to the log, in the order of
  appending, when the id ref stands at \<open>n\<close> and the calls \<open>pend\<close> are queued: a render
  appends the queued calls with the id the ref has reached by then.\<close>

fun appended_events ::
  "nat \<Rightarrow> (status_event_type \<times> string) list \<Rightarrow> log_op list \<Rightarrow> status_event list" where
  "appended_events n pend [] = []"
| "appended_events n pend (AddEvent ty tok # ops) = appended_events (n + 1) (pend @ [(ty, tok)]) ops"
| "appended_events n pend (Render clock # ops) =
     map (\<lambda>(k, ty, tok). \<lparr> ev_id = n, ev_type = ty, ev_token = tok, ev_timestamp = clock k \<rparr>)
       (enumerate 0 pend)
     @ appended_events n [] ops"

text \<open>The ids in the log are in order when they never decrease along the log and none
  exceeds the id ref.\<close>

definition log_ordered :: "chat_stream \<Rightarrow> bool" where
  "log_ordered s =
     (sorted (map ev_id (statusEvents s)) \<and> list_all (\<lambda>e. ev_id e \<le> eventIdRef s) (statusEvents s))"

definition cs_setTimeout_ref :: "cs_callback \<Rightarrow> nat \<Rightarrow> chat_stream \<Rightarrow> chat_stream" where
  "cs_setTimeout_ref cb delay s =
     s\<lparr> cs_timers := cs_timers s @ [(cs_nextTimer s, delay, cb)],
        cs_nextTimer := cs_nextTimer s + 1,
        cs_timeoutRef := Some (cs_nextTimer s) \<rparr>"

text \<open>\<^verbatim>\<open>processStep\<close> and the four nested callbacks of its rejection branch.\<close>

definition processStep :: "anim_step list \<Rightarrow> chat_stream \<Rightarrow> chat_stream" where
  "processStep steps s =
     (if cs_stepIdx s \<ge> length steps
      then s\<lparr> cs_done := True, status := (status s)\<lparr> ss_phase := Complete \<rparr> \<rparr>
      else
        let step = steps ! cs_stepIdx s;
            s0 = s\<lparr> cs_stepIdx := cs_stepIdx s + 1 \<rparr>
        in case step of
          AcceptedStep tok idx \<Rightarrow>
            let s1 = s0\<lparr> cs_visibleTokens := cs_visibleTokens s0 @
                        [\<lparr> vt_text = tok_text tok, vt_type = tok_type tok, vt_phase = Settled \<rparr>] \<rparr>;
                c = cs_counts s1;
                c1 = c\<lparr> drafted := drafted c + 1 \<rparr>;
                c2 = (if tok_type tok = Accepted then c1\<lparr> accepted := accepted c + 1 \<rparr> else c1);
                next = (if tok_type tok = Corrected then c2\<lparr> corrected := corrected c + 1 \<rparr> else c2);
                s2 = s1\<lparr> cs_counts := next,
                        status := \<lparr> ss_phase = Drafting, currentToken = trim (tok_text tok),
                                    ss_counts = next \<rparr> \<rparr>;
                s3 = addEvent EvDraft (trim (tok_text tok)) s2;
                s4 = addEvent EvVerified (trim (tok_text tok)) s3
            in cs_setTimeout_ref ProcessStep ACCEPTED_DELAY s4
        | RejectionStep rej corr rejIdx corrIdx \<Rightarrow>
            let s1 = s0\<lparr> status := (status s0)\<lparr> ss_phase := Drafting,
                                                  currentToken := trim (tok_text rej) \<rparr> \<rparr>;
                s2 = addEvent EvDraft (trim (tok_text rej)) s1;
                s3 = s2\<lparr> cs_visibleTokens := cs_visibleTokens s2 @
                        [\<lparr> vt_text = tok_text rej, vt_type = Rejected, vt_phase = Appearing \<rparr>] \<rparr>;
                c = cs_counts s3;
                s4 = s3\<lparr> cs_counts := c\<lparr> drafted := drafted c + 1 \<rparr> \<rparr>
            in cs_setTimeout_ref (CsStrike rej corr) REJECTED_SHOW_DELAY s4)"

definition csStrike :: "token \<Rightarrow> token \<Rightarrow> chat_stream \<Rightarrow> chat_stream" where
  "csStrike rej corr s =
     (let s1 = s\<lparr> cs_visibleTokens := set_last_phase Striking (cs_visibleTokens s) \<rparr>;
          c = cs_counts s1;
          next = c\<lparr> rejected := rejected c + 1 \<rparr>;
          s2 = s1\<lparr> cs_counts := next,
                  status := \<lparr> ss_phase = Verifying, currentToken = trim (tok_text rej),
                              ss_counts = next \<rparr> \<rparr>;
          s3 = addEvent EvRejected (trim (tok_text rej)) s2
      in cs_setTimeout_ref (CsHide rej corr) STRIKE_PAUSE s3)"

definition csHide :: "token \<Rightarrow> token \<Rightarrow> chat_stream \<Rightarrow> chat_stream" where
  "csHide rej corr s =
     cs_setTimeout_ref (CsCorrect rej corr) 100
       (s\<lparr> cs_visibleTokens := set_last_phase Hidden (cs_visibleTokens s) \<rparr>)"

definition csCorrect :: "token \<Rightarrow> token \<Rightarrow> chat_stream \<Rightarrow> chat_stream" where
  "csCorrect rej corr s =
     (let s1 = addEvent EvCorrected (trim (tok_text corr)) s;
          s2 = s1\<lparr> cs_visibleTokens := without_hidden (cs_visibleTokens s1) @
                  [\<lparr> vt_text = tok_text corr, vt_type = Corrected, vt_phase = Appearing \<rparr>] \<rparr>;
          c = cs_counts s2;
          next = c\<lparr> drafted := drafted c + 1, corrected := corrected c + 1 \<rparr>;
          s3 = s2\<lparr> cs_counts := next,
                  status := \<lparr> ss_phase = Correcting, currentToken = trim (tok_text corr),
                              ss_counts = next \<rparr> \<rparr>
      in cs_setTimeout_ref CsSettle 150 s3)"

definition csSettle :: "chat_stream \<Rightarrow> chat_stream" where
  "csSettle s =
     (let s1 = s\<lparr> cs_visibleTokens := set_last_phase Settled (cs_visibleTokens s) \<rparr>;
          s2 = s1\<lparr> status := (status s1)\<lparr> ss_phase := Drafting \<rparr> \<rparr>
      in cs_setTimeout_ref ProcessStep ACCEPTED_DELAY s2)"

definition cs_run_callback :: "anim_step list \<Rightarrow> cs_callback \<Rightarrow> chat_stream \<Rightarrow> chat_stream" where
  "cs_run_callback steps cb s =
     (case cb of
        ProcessStep \<Rightarrow> processStep steps s
      | CsStrike rej corr \<Rightarrow> csStrike rej corr s
      | CsHide rej corr \<Rightarrow> csHide rej corr s
      | CsCorrect rej corr \<Rightarrow> csCorrect rej corr s
      | CsSettle \<Rightarrow> csSettle s)"

text \<open>The timer whose id the timeout ref holds fires: its callback runs, and React renders
  with the clock readings \<open>clock\<close>.\<close>

definition cs_fire_ref :: "anim_step list \<Rightarrow> (nat \<Rightarrow> nat) \<Rightarrow> chat_stream \<Rightarrow> chat_stream" where
  "cs_fire_ref steps clock s =
     (case cs_timeoutRef s of
        None \<Rightarrow> s
      | Some tid \<Rightarrow>
          (case find (\<lambda>t. fst t = tid) (cs_timers s) of
             None \<Rightarrow> s
           | Some (i, delay, cb) \<Rightarrow>
               render clock
                 (cs_run_callback steps cb
                    (s\<lparr> cs_timers := filter (\<lambda>t. fst t \<noteq> tid) (cs_timers s) \<rparr>))))"

text \<open>How many timer firings process a step to its end.\<close>

fun firings :: "anim_step \<Rightarrow> nat" where
  "firings (AcceptedStep tok idx) = 1"
| "firings (RejectionStep rej corr rejIdx corrIdx) = 5"

text \<open>The timers are well-formed when their ids are below the next id to be handed out.\<close>

definition fresh_ids :: "nat \<Rightarrow> (nat \<times> 'a) list \<Rightarrow> bool" where
  "fresh_ids n ts = list_all (\<lambda>t. fst t < n) ts"

text \<open>The callback that the timer in a ref is waiting to run, if it is pending.\<close>

definition pending :: "nat option \<Rightarrow> (nat \<times> nat \<times> 'cb) list \<Rightarrow> 'cb option" where
  "pending ref ts =
     (case ref of
        None \<Rightarrow> None
      | Some tid \<Rightarrow> map_option (\<lambda>t. snd (snd t)) (find (\<lambda>t. fst t = tid) ts))"

text \<open>A component is ready to run the callback \<open>cb\<close> when \<open>cb\<close> is what the timer in its
  timeout ref is waiting to run and the timer ids are well-formed.\<close>

definition ready :: "callback \<Rightarrow> dashboard \<Rightarrow> bool" where
  "ready cb s = (pending (timeoutRef s) (timers s) = Some cb \<and> fresh_ids (nextTimer s) (timers s))"

definition cs_ready :: "cs_callback \<Rightarrow> chat_stream \<Rightarrow> bool" where
  "cs_ready cb s =
     (pending (cs_timeoutRef s) (cs_timers s) = Some cb \<and> fresh_ids (cs_nextTimer s) (cs_timers s))"

text \<open>Successive firings of the chat stream's timer, each with the clock readings of its
  render.\<close>

definition cs_fire_seq :: "anim_step list \<Rightarrow> (nat \<Rightarrow> nat) list \<Rightarrow> chat_stream \<Rightarrow> chat_stream" where
  "cs_fire_seq steps nows s = foldl (\<lambda>st now. cs_fire_ref steps now st) s nows"

text \<open>The effect of \<^verbatim>\<open>ChatStream\<close> that schedules the first step.\<close>

definition chat_mount :: "chat_stream \<Rightarrow> chat_stream" where
  "chat_mount s = cs_setTimeout_ref ProcessStep INITIAL_DELAY s"

text \<open>What one fully processed step adds to the counts: a rejection step two drafted, one
  rejected and one corrected; an accepted step one drafted, and one accepted or one
  corrected when its token is tagged so.\<close>

fun step_contribution :: "anim_step \<Rightarrow> token_counts \<Rightarrow> token_counts" where
  "step_contribution (AcceptedStep tok idx) c =
     c\<lparr> drafted := drafted c + 1,
        accepted := accepted c + (if tok_type tok = Accepted then 1 else 0),
        corrected := corrected c + (if tok_type tok = Corrected then 1 else 0) \<rparr>"
| "step_contribution (RejectionStep rej corr rejIdx corrIdx) c =
     c\<lparr> drafted := drafted c + 2, rejected := rejected c + 1, corrected := corrected c + 1 \<rparr>"

text \<open>The token sequence of the specification's worked example.\<close>

definition example_tokens :: "token list" where
  "example_tokens =
     [\<lparr> tok_text = ''The'', tok_type = Accepted \<rparr>,
      \<lparr> tok_text = '' theory'', tok_type = Accepted \<rparr>,
      \<lparr> tok_text = '' the early'', tok_type = Rejected \<rparr>,
      \<lparr> tok_text = '' 1905'', tok_type = Corrected \<rparr>]"

section \<open>Example runs of the live adapter\<close>

text \<open>Two token messages, a rejected token and its correction.\<close>

definition ev_rejected :: token_event where
  "ev_rejected = \<lparr> te_text = '' the early'', te_type = Rejected, te_token_id = None, te_logprob = None \<rparr>"

definition ev_corrected :: token_event where
  "ev_corrected = \<lparr> te_text = '' 1905'', te_type = Corrected, te_token_id = None, te_logprob = None \<rparr>"

text \<open>A first live run: the backend is online, a prompt is submitted, the two tokens arrive
  one right after the other (the second is queued behind the animation of the first), an
  \<^verbatim>\<open>error\<close> message follows, and the first timer of the rejected token's animation
  fires.\<close>

definition first_run :: "event list" where
  "first_run =
     [Health True, Submit ''first'' 0,
      Message 0 (TokenMsg ev_rejected), Message 0 (TokenMsg ev_corrected),
      Message 0 (ErrorMsg ''failed''), Fire 1]"

text \<open>A live run in mid-stream: one corrected token has arrived and is being shown.\<close>

definition mid_stream_state :: dashboard where
  "mid_stream_state =
     run_events DEMO_STEPS
       [Health True, Submit ''first'' 0, Message 0 (TokenMsg ev_corrected)] init_dashboard"

section \<open>Reachable states and the queue chains\<close>

text \<open>The run whose queue chain a callback belongs to (the callbacks through which
  \<^verbatim>\<open>processTokenQueue\<close> re-schedules itself), and the run a callback refers to at all.\<close>

fun chain_of :: "callback \<Rightarrow> nat option" where
  "chain_of (ProcessTokenQueue r) = Some r"
| "chain_of (LiveStrike r) = Some r"
| "chain_of (LiveHide r) = Some r"
| "chain_of (LiveFilter r) = Some r"
| "chain_of (LiveSettle r) = Some r"
| "chain_of cb = None"

fun run_of :: "callback \<Rightarrow> nat option" where
  "run_of (CheckDone r) = Some r"
| "run_of cb = chain_of cb"

text \<open>The pending timers of the queue chain of run \<open>r\<close>.\<close>

definition chain_timers :: "nat \<Rightarrow> (nat \<times> nat \<times> callback) list \<Rightarrow> (nat \<times> nat \<times> callback) list" where
  "chain_timers r ts = filter (\<lambda>t. chain_of (snd (snd t)) = Some r) ts"

text \<open>The invariant of the queue chains: every timer refers to an existing run, and a run has
  at most one pending chain timer, none when its \<^verbatim>\<open>processing\<close> flag is clear.\<close>

definition runs_bound :: "dashboard \<Rightarrow> bool" where
  "runs_bound s =
     list_all (\<lambda>t. case run_of (snd (snd t)) of None \<Rightarrow> True | Some r \<Rightarrow> r < length (runs s)) (timers s)"

definition chain_ok :: "dashboard \<Rightarrow> bool" where
  "chain_ok s =
     list_all (\<lambda>r. length (chain_timers r (timers s)) \<le> (if processing (runs s ! r) then 1 else 0))
       [0..<length (runs s)]"

definition queue_inv :: "dashboard \<Rightarrow> bool" where
  "queue_inv s = (runs_bound s \<and> chain_ok s)"

text \<open>The states that some sequence of events leads to from the initial state.\<close>

inductive reachable :: "anim_step list \<Rightarrow> dashboard \<Rightarrow> bool" for steps where
  reachable_init: "reachable steps init_dashboard"
| reachable_event: "reachable steps s \<Longrightarrow> reachable steps (apply_event steps ev s)"

section \<open>Properties of the step segmenter\<close>

lemma buildSteps_loop_segment:
  "i \<le> length tokens \<Longrightarrow>
   buildSteps_loop tokens i steps = steps @ segment_rule i (drop i tokens)"
proof (induction tokens i steps rule: buildSteps_loop.induct)
  case (1 tokens i steps)
  show ?case
  proof (cases "i < length tokens")
    case False
    with "1.prems" show ?thesis
      by (subst buildSteps_loop.simps) simp
  next
    case True
    note lt = True
    let ?t = "tokens ! i"
    show ?thesis
    proof (cases "i + 1 < length tokens")
      case False
      with lt have d: "drop i tokens = [?t]"
        by (metis Cons_nth_drop_Suc Suc_eq_plus1 drop_all not_less)
      from False lt "1.IH"(2) [of ?t] have
        "buildSteps_loop tokens (i + 1) (steps @ [AcceptedStep ?t i])
           = (steps @ [AcceptedStep ?t i]) @ segment_rule (i + 1) (drop (i + 1) tokens)"
        by simp
      with False lt d show ?thesis
        by (subst buildSteps_loop.simps) simp
    next
      case True
      let ?u = "tokens ! (i + 1)"
      from lt True have d: "drop i tokens = ?t # ?u # drop (i + 2) tokens"
        by (metis Cons_nth_drop_Suc Suc_eq_plus1 add_2_eq_Suc')
      have d1: "drop (i + 1) tokens = ?u # drop (i + 2) tokens"
        using True by (metis Cons_nth_drop_Suc Suc_eq_plus1 add_2_eq_Suc')
      show ?thesis
      proof (cases "tok_type ?t = Rejected \<and> tok_type ?u = Corrected")
        case True
        with lt \<open>i + 1 < length tokens\<close> "1.IH"(1) [of ?t] have
          "buildSteps_loop tokens (i + 2) (steps @ [RejectionStep ?t ?u i (i + 1)])
             = (steps @ [RejectionStep ?t ?u i (i + 1)]) @ segment_rule (i + 2) (drop (i + 2) tokens)"
          by simp
        with True lt \<open>i + 1 < length tokens\<close> d show ?thesis
          by (subst buildSteps_loop.simps) simp
      next
        case False
        with lt "1.IH"(2) [of ?t] have
          "buildSteps_loop tokens (i + 1) (steps @ [AcceptedStep ?t i])
             = (steps @ [AcceptedStep ?t i]) @ segment_rule (i + 1) (drop (i + 1) tokens)"
          by auto
        with False lt \<open>i + 1 < length tokens\<close> d d1 show ?thesis
          by (subst buildSteps_loop.simps) auto
      qed
    qed
  qed
qed

lemma buildSteps_segment: "buildSteps tokens = segment_rule 0 tokens"
  by (simp add: buildSteps_def buildSteps_loop_segment)

lemma segment_rule_trailing:
  "tok_type t \<noteq> Corrected \<Longrightarrow>
   segment_rule k (ts @ [t]) \<noteq> [] \<and> last (segment_rule k (ts @ [t])) = AcceptedStep t (k + length ts)"
proof (induction k ts rule: segment_rule.induct)
  case (1 k)
  then show ?case by simp
next
  case (2 k u)
  then show ?case by simp
next
  case (3 k a b rest)
  then show ?case by (cases rest) auto
qed

text \<open>
  Claim C1. \<^verbatim>\<open>buildSteps\<close> follows the segmentation rule on every token sequence: the
  empty sequence gives no step; a rejected token directly followed by a corrected one gives
  one rejection step holding the pair (with their indices) and the scan goes on two tokens
  further; any other token gives one accepted step wrapping it and the scan goes on one
  token further. In particular a rejected token at the end of the sequence, which has no
  successor, ends the result as an accepted step wrapping that (still rejected) token.
\<close>

theorem buildSteps_rule:
  "buildSteps tokens = segment_rule 0 tokens \<and>
   (tok_type t = Rejected \<longrightarrow>
      last (buildSteps (tokens @ [t])) = AcceptedStep t (length tokens))"
  using segment_rule_trailing [of t 0 tokens]
  by (simp add: buildSteps_segment)

theorem buildSteps_rule_witness:
  "buildSteps [\<lparr>tok_text = ''a'', tok_type = Rejected\<rparr>, \<lparr>tok_text = ''b'', tok_type = Corrected\<rparr>]
     = [RejectionStep \<lparr>tok_text = ''a'', tok_type = Rejected\<rparr> \<lparr>tok_text = ''b'', tok_type = Corrected\<rparr> 0 1]
   \<and> tok_type \<lparr>tok_text = ''c'', tok_type = Rejected\<rparr> = Rejected
   \<and> last (buildSteps ([\<lparr>tok_text = ''a'', tok_type = Rejected\<rparr>, \<lparr>tok_text = ''b'', tok_type = Corrected\<rparr>]
                          @ [\<lparr>tok_text = ''c'', tok_type = Rejected\<rparr>]))
       = AcceptedStep \<lparr>tok_text = ''c'', tok_type = Rejected\<rparr> 2"
  using buildSteps_rule [of "[\<lparr>tok_text = ''a'', tok_type = Rejected\<rparr>, \<lparr>tok_text = ''b'', tok_type = Corrected\<rparr>]"
                            "\<lparr>tok_text = ''c'', tok_type = Rejected\<rparr>"]
  by simp

section \<open>Properties of word counting\<close>














section \<open>Properties of the packet throttler\<close>

lemma buffer_set_same [simp]: "buffer_set l (buffer_of l b) b = b"
  by (cases l) (simp_all add: buffer_set_def buffer_of_def)

lemma buffer_of_set [simp]: "buffer_of l (buffer_set l' n b) = (if l = l' then n else buffer_of l b)"
  by (cases l; cases l') (simp_all add: buffer_set_def buffer_of_def)

lemma buffer_set_set [simp]: "buffer_set l n (buffer_set l m b) = buffer_set l n b"
  by (cases l) (simp_all add: buffer_set_def)

lemma new_packets_Suc:
  "\<lparr> pkt_id = n, pkt_direction = (if l = Draft then Ltr else Rtl), pkt_lane = l, pkt_color = color \<rparr>
     # new_packets l color (Suc n) k = new_packets l color n (Suc k)"
proof -
  have "[Suc 0..<Suc k] = map Suc [0..<k]" by (simp only: map_Suc_upt)
  then show ?thesis
    unfolding new_packets_def by (simp add: upt_conv_Cons del: upt_Suc)
qed

lemma emitPacket_loop_closed:
  "emitPacket_loop l color s =
     s\<lparr> packetId := packetId s + buffer_of l (packetWordBuffer s) div 3,
        packets := packets s @ new_packets l color (packetId s) (buffer_of l (packetWordBuffer s) div 3),
        packetWordBuffer := buffer_set l (buffer_of l (packetWordBuffer s) mod 3) (packetWordBuffer s) \<rparr>"
proof (induction l color s rule: emitPacket_loop.induct)
  case (1 l color s)
  let ?b = "buffer_of l (packetWordBuffer s)"
  show ?case
  proof (cases "?b \<ge> 3")
    case False
    then have "?b div 3 = 0" "?b mod 3 = ?b" by simp_all
    with False show ?thesis
      by (subst emitPacket_loop.simps) (simp add: WORDS_PER_PACKET_def new_packets_def)
  next
    case True
    then have d: "?b div 3 = Suc ((?b - 3) div 3)" and m: "?b mod 3 = (?b - 3) mod 3"
      by (simp_all add: le_div_geq le_mod_geq)
    from True have ge: "WORDS_PER_PACKET \<le> ?b" by (simp add: WORDS_PER_PACKET_def)
    show ?thesis
      apply (subst emitPacket_loop.simps)
      apply (simp only: ge if_True Let_def)
      apply (subst "1.IH" [OF ge refl])
      apply (simp add: emitPacket_def WORDS_PER_PACKET_def d m new_packets_Suc [symmetric])
      done
  qed
qed


lemma emitPacketForWords_frame [simp]:
  "phase (emitPacketForWords l color text s) = phase s"
  "prompt (emitPacketForWords l color text s) = prompt s"
  "visibleTokens (emitPacketForWords l color text s) = visibleTokens s"
  "done_flag (emitPacketForWords l color text s) = done_flag s"
  "counts (emitPacketForWords l color text s) = counts s"
  "isStreaming (emitPacketForWords l color text s) = isStreaming s"
  "backendOnline (emitPacketForWords l color text s) = backendOnline s"
  "acceptanceRate (emitPacketForWords l color text s) = acceptanceRate s"
  "totalInferenceTimeSavedMs (emitPacketForWords l color text s) = totalInferenceTimeSavedMs s"
  "costSavingsDollars (emitPacketForWords l color text s) = costSavingsDollars s"
  "streamStartMs (emitPacketForWords l color text s) = streamStartMs s"
  "generatedOutputTokens (emitPacketForWords l color text s) = generatedOutputTokens s"
  "acceptedDraftTokens (emitPacketForWords l color text s) = acceptedDraftTokens s"
  "stepIdx (emitPacketForWords l color text s) = stepIdx s"
  "timeoutRef (emitPacketForWords l color text s) = timeoutRef s"
  "cleanupRef (emitPacketForWords l color text s) = cleanupRef s"
  "timers (emitPacketForWords l color text s) = timers s"
  "nextTimer (emitPacketForWords l color text s) = nextTimer s"
  "runs (emitPacketForWords l color text s) = runs s"
  by (simp_all add: emitPacketForWords_def emitPacket_loop_closed Let_def)


lemma length_new_packets [simp]: "length (new_packets l color n k) = k"
  by (simp add: new_packets_def)







section \<open>Properties of packet acknowledgement\<close>

text \<open>
  Claim C10. \<^verbatim>\<open>handlePacketDone(i)\<close> leaves no packet with id \<open>i\<close>, keeps every other
  packet unchanged and in its original relative order (the result is a subsequence of the
  old list and holds the same packets with another id, in the same order), changes nothing
  but the packet list, and is a no-op when no active packet has the id \<open>i\<close>.
\<close>

theorem handlePacketDone_frame:
  "(\<forall>p \<in> set (packets (handlePacketDone i s)). pkt_id p \<noteq> i) \<and>
   filter (\<lambda>p. pkt_id p \<noteq> i) (packets (handlePacketDone i s)) = filter (\<lambda>p. pkt_id p \<noteq> i) (packets s) \<and>
   subseq (packets (handlePacketDone i s)) (packets s) \<and>
   handlePacketDone i s = s\<lparr> packets := packets (handlePacketDone i s) \<rparr> \<and>
   (i \<notin> pkt_id ` set (packets s) \<longrightarrow> handlePacketDone i s = s)"
proof -
  have "i \<notin> pkt_id ` set (packets s) \<Longrightarrow> filter (\<lambda>p. pkt_id p \<noteq> i) (packets s) = packets s"
    by (rule filter_True) auto
  then show ?thesis
    by (auto simp: handlePacketDone_def)
qed

theorem handlePacketDone_frame_witness:
  "7 \<notin> pkt_id ` set (packets init_dashboard) \<and> handlePacketDone 7 init_dashboard = init_dashboard \<and>
   packets (handlePacketDone 0 (emitPacket Verify color_blue (emitPacket Draft color_green init_dashboard)))
     = [\<lparr> pkt_id = 1, pkt_direction = Rtl, pkt_lane = Verify, pkt_color = color_blue \<rparr>]"
proof -
  have h: "7 \<notin> pkt_id ` set (packets init_dashboard)"
    by (simp add: init_dashboard_def)
  from handlePacketDone_frame [of 7 init_dashboard] h
  have "handlePacketDone 7 init_dashboard = init_dashboard" by blast
  moreover have "packets (handlePacketDone 0 (emitPacket Verify color_blue (emitPacket Draft color_green init_dashboard)))
     = [\<lparr> pkt_id = 1, pkt_direction = Rtl, pkt_lane = Verify, pkt_color = color_blue \<rparr>]"
    by (simp add: handlePacketDone_def emitPacket_def init_dashboard_def)
  ultimately show ?thesis using h by simp
qed

section \<open>Properties of the status event log\<close>

subsection \<open>What the operations of the chat stream leave alone\<close>

lemma cs_setTimeout_ref_frame [simp]:
  "cs_visibleTokens (cs_setTimeout_ref cb d s) = cs_visibleTokens s"
  "cs_done (cs_setTimeout_ref cb d s) = cs_done s"
  "cs_counts (cs_setTimeout_ref cb d s) = cs_counts s"
  "status (cs_setTimeout_ref cb d s) = status s"
  "statusEvents (cs_setTimeout_ref cb d s) = statusEvents s"
  "pendingStatusEvents (cs_setTimeout_ref cb d s) = pendingStatusEvents s"
  "eventIdRef (cs_setTimeout_ref cb d s) = eventIdRef s"
  "cs_stepIdx (cs_setTimeout_ref cb d s) = cs_stepIdx s"
  "cs_timeoutRef (cs_setTimeout_ref cb d s) = Some (cs_nextTimer s)"
  "cs_timers (cs_setTimeout_ref cb d s) = cs_timers s @ [(cs_nextTimer s, d, cb)]"
  "cs_nextTimer (cs_setTimeout_ref cb d s) = cs_nextTimer s + 1"
  by (simp_all add: cs_setTimeout_ref_def)

lemma addEvent_frame [simp]:
  "cs_visibleTokens (addEvent ty tok s) = cs_visibleTokens s"
  "cs_done (addEvent ty tok s) = cs_done s"
  "cs_counts (addEvent ty tok s) = cs_counts s"
  "status (addEvent ty tok s) = status s"
  "statusEvents (addEvent ty tok s) = statusEvents s"
  "cs_stepIdx (addEvent ty tok s) = cs_stepIdx s"
  "cs_timeoutRef (addEvent ty tok s) = cs_timeoutRef s"
  "cs_timers (addEvent ty tok s) = cs_timers s"
  "cs_nextTimer (addEvent ty tok s) = cs_nextTimer s"
  by (simp_all add: addEvent_def)

lemma addEvent_log [simp]:
  "eventIdRef (addEvent ty tok s) = eventIdRef s + 1"
  "pendingStatusEvents (addEvent ty tok s) = pendingStatusEvents s @ [(ty, tok)]"
  by (simp_all add: addEvent_def)

lemma run_updater_frame [simp]:
  "cs_visibleTokens (run_updater ty tok now s) = cs_visibleTokens s"
  "cs_done (run_updater ty tok now s) = cs_done s"
  "cs_counts (run_updater ty tok now s) = cs_counts s"
  "status (run_updater ty tok now s) = status s"
  "pendingStatusEvents (run_updater ty tok now s) = pendingStatusEvents s"
  "eventIdRef (run_updater ty tok now s) = eventIdRef s"
  "cs_stepIdx (run_updater ty tok now s) = cs_stepIdx s"
  "cs_timeoutRef (run_updater ty tok now s) = cs_timeoutRef s"
  "cs_timers (run_updater ty tok now s) = cs_timers s"
  "cs_nextTimer (run_updater ty tok now s) = cs_nextTimer s"
  by (simp_all add: run_updater_def Let_def)

lemma updaters_frame:
  "cs_visibleTokens (foldl (\<lambda>st (k, ty, tok). run_updater ty tok (clock k) st) s xs) = cs_visibleTokens s"
  "cs_done (foldl (\<lambda>st (k, ty, tok). run_updater ty tok (clock k) st) s xs) = cs_done s"
  "cs_counts (foldl (\<lambda>st (k, ty, tok). run_updater ty tok (clock k) st) s xs) = cs_counts s"
  "status (foldl (\<lambda>st (k, ty, tok). run_updater ty tok (clock k) st) s xs) = status s"
  "pendingStatusEvents (foldl (\<lambda>st (k, ty, tok). run_updater ty tok (clock k) st) s xs) = pendingStatusEvents s"
  "eventIdRef (foldl (\<lambda>st (k, ty, tok). run_updater ty tok (clock k) st) s xs) = eventIdRef s"
  "cs_stepIdx (foldl (\<lambda>st (k, ty, tok). run_updater ty tok (clock k) st) s xs) = cs_stepIdx s"
  "cs_timeoutRef (foldl (\<lambda>st (k, ty, tok). run_updater ty tok (clock k) st) s xs) = cs_timeoutRef s"
  "cs_timers (foldl (\<lambda>st (k, ty, tok). run_updater ty tok (clock k) st) s xs) = cs_timers s"
  "cs_nextTimer (foldl (\<lambda>st (k, ty, tok). run_updater ty tok (clock k) st) s xs) = cs_nextTimer s"
  by (induction xs arbitrary: s; simp add: case_prod_unfold)+

lemma render_frame [simp]:
  "cs_visibleTokens (render clock s) = cs_visibleTokens s"
  "cs_done (render clock s) = cs_done s"
  "cs_counts (render clock s) = cs_counts s"
  "status (render clock s) = status s"
  "pendingStatusEvents (render clock s) = []"
  "eventIdRef (render clock s) = eventIdRef s"
  "cs_stepIdx (render clock s) = cs_stepIdx s"
  "cs_timeoutRef (render clock s) = cs_timeoutRef s"
  "cs_timers (render clock s) = cs_timers s"
  "cs_nextTimer (render clock s) = cs_nextTimer s"
  by (simp_all add: render_def updaters_frame)

subsection \<open>The last five\<close>

lemma length_slice_last: "length (slice_last n xs) \<le> n"
  by (simp add: slice_last_def)

lemma slice_last_short: "length xs \<le> n \<Longrightarrow> slice_last n xs = xs"
  by (simp add: slice_last_def)

lemma slice_last_append: "slice_last n (slice_last n xs @ ys) = slice_last n (xs @ ys)"
proof -
  have "length xs - (length xs - n) + length ys - n + (length xs - n) = length xs + length ys - n"
    "length xs - (length xs - n) + length ys - n - (length xs - (length xs - n)) = length xs + length ys - n - length xs"
    by arith+
  then show ?thesis
    by (simp add: slice_last_def)
qed

lemma slice_last_snoc: "slice_last 5 (slice_last 5 xs @ [e]) = slice_last 5 (xs @ [e])"
  by (rule slice_last_append)

lemma slice_last_full: "length xs = 5 \<Longrightarrow> slice_last 5 (xs @ [e]) = tl xs @ [e]"
  by (cases xs) (simp_all add: slice_last_def)

subsection \<open>The log after a sequence of calls and renders\<close>

lemma run_updater_log:
  "statusEvents (run_updater ty tok now s)
     = slice_last 5 (statusEvents s @
         [\<lparr> ev_id = eventIdRef s, ev_type = ty, ev_token = tok, ev_timestamp = now \<rparr>])"
  by (simp add: run_updater_def Let_def)

lemma updaters_log:
  assumes "length (statusEvents s) \<le> 5"
  shows "statusEvents (foldl (\<lambda>st (k, ty, tok). run_updater ty tok (clock k) st) s xs)
    = slice_last 5 (statusEvents s @
        map (\<lambda>(k, ty, tok). \<lparr> ev_id = eventIdRef s, ev_type = ty, ev_token = tok, ev_timestamp = clock k \<rparr>) xs)"
proof (induction xs rule: rev_induct)
  case Nil
  from assms show ?case by (simp add: slice_last_short)
next
  case (snoc x xs)
  obtain k ty tok where x: "x = (k, ty, tok)" by (cases x)
  let ?es = "map (\<lambda>(k, ty, tok). \<lparr> ev_id = eventIdRef s, ev_type = ty, ev_token = tok, ev_timestamp = clock k \<rparr>) xs"
  from snoc show ?case
    by (simp add: x run_updater_log updaters_frame slice_last_snoc [of "statusEvents s @ ?es", simplified])
qed

lemma render_log:
  "length (statusEvents s) \<le> 5 \<Longrightarrow>
   statusEvents (render clock s)
     = slice_last 5 (statusEvents s @
         map (\<lambda>(k, ty, tok). \<lparr> ev_id = eventIdRef s, ev_type = ty, ev_token = tok, ev_timestamp = clock k \<rparr>)
           (enumerate 0 (pendingStatusEvents s)))"
  by (simp add: render_def updaters_log)

lemma render_length: "length (statusEvents s) \<le> 5 \<Longrightarrow> length (statusEvents (render clock s)) \<le> 5"
  by (simp add: render_log length_slice_last)

lemma run_log_ops_simps [simp]:
  "run_log_ops [] s = s"
  "run_log_ops (AddEvent ty tok # ops) s = run_log_ops ops (addEvent ty tok s)"
  "run_log_ops (Render clock # ops) s = run_log_ops ops (render clock s)"
  by (simp_all add: run_log_ops_def)

lemma run_log_ops_closed:
  "length (statusEvents s) \<le> 5 \<Longrightarrow>
   statusEvents (run_log_ops ops s)
     = slice_last 5 (statusEvents s @ appended_events (eventIdRef s) (pendingStatusEvents s) ops)"
proof (induction ops arbitrary: s)
  case Nil
  then show ?case by (simp add: slice_last_short)
next
  case (Cons op ops)
  show ?case
  proof (cases op)
    case (AddEvent ty tok)
    from Cons.IH [of "addEvent ty tok s"] Cons.prems show ?thesis
      by (simp add: AddEvent)
  next
    case (Render clock)
    from Cons.IH [of "render clock s"] Cons.prems show ?thesis
      by (simp add: Render render_log length_slice_last slice_last_append)
  qed
qed

lemma run_log_ops_ref: "eventIdRef (run_log_ops ops s) = eventIdRef s + length (event_calls ops)"
proof (induction ops arbitrary: s)
  case Nil
  show ?case by simp
next
  case (Cons op ops)
  then show ?case by (cases op) simp_all
qed

text \<open>Every call is run once, and the calls are run in the order in which they were made:
  the types and tokens of the events appended, followed by the calls still queued, are the
  calls queued at the start followed by the calls made.\<close>

lemma enumerate_types:
  "map ((\<lambda>e. (ev_type e, ev_token e)) \<circ>
        (\<lambda>(k, ty, tok). \<lparr> ev_id = n, ev_type = ty, ev_token = tok, ev_timestamp = clock k \<rparr>))
     (enumerate m pend) = pend"
  by (induction pend arbitrary: m) (simp_all add: case_prod_unfold)

lemma run_log_ops_order:
  "map (\<lambda>e. (ev_type e, ev_token e)) (appended_events (eventIdRef s) (pendingStatusEvents s) ops)
     @ pendingStatusEvents (run_log_ops ops s)
   = pendingStatusEvents s @ event_calls ops"
proof (induction ops arbitrary: s)
  case Nil
  show ?case by simp
next
  case (Cons op ops)
  show ?case
  proof (cases op)
    case (AddEvent ty tok)
    from Cons.IH [of "addEvent ty tok s"] show ?thesis
      by (simp add: AddEvent)
  next
    case (Render clock)
    from Cons.IH [of "render clock s"] show ?thesis
      by (simp add: Render enumerate_types)
  qed
qed

text \<open>The ids of the events appended never decrease, and lie between the value of the id
  ref at the start and its value at the end.\<close>

lemma const_sorted: "set xs \<subseteq> {n} \<Longrightarrow> sorted xs"
  for xs :: "nat list"
  by (induction xs) auto

lemma appended_ids:
  "sorted (map ev_id (appended_events n pend ops)) \<and>
   (\<forall>e \<in> set (appended_events n pend ops). n \<le> ev_id e \<and> ev_id e \<le> n + length (event_calls ops))"
proof (induction ops arbitrary: n pend)
  case Nil
  show ?case by simp
next
  case (Cons op ops)
  show ?case
  proof (cases op)
    case (AddEvent ty tok)
    from Cons.IH [of "n + 1" "pend @ [(ty, tok)]"] show ?thesis
      by (fastforce simp: AddEvent)
  next
    case (Render clock)
    let ?new = "map (\<lambda>(k, ty, tok). \<lparr> ev_id = n, ev_type = ty, ev_token = tok, ev_timestamp = clock k \<rparr>)
                  (enumerate 0 pend)"
    have r: "\<forall>e \<in> set ?new. ev_id e = n"
      by (auto simp: case_prod_unfold)
    then have "sorted (map ev_id ?new)"
      by (intro const_sorted [of _ n]) auto
    with r Cons.IH [of n "[]"] show ?thesis
      unfolding Render appended_events.simps event_calls.simps map_append sorted_append set_append set_map
      by fastforce
  qed
qed

lemma sorted_slice_last: "sorted xs \<Longrightarrow> sorted (slice_last n xs)"
  by (simp add: slice_last_def sorted_wrt_drop)

subsection \<open>The order of the ids\<close>

lemma log_ordered_init: "log_ordered init_chat_stream"
  by (simp add: log_ordered_def init_chat_stream_def)

lemma log_ordered_addEvent: "log_ordered s \<Longrightarrow> log_ordered (addEvent ty tok s)"
  by (auto simp: log_ordered_def list_all_iff)

lemma log_ordered_run_updater:
  assumes "log_ordered s"
  shows "log_ordered (run_updater ty tok now s)"
proof -
  let ?e = "\<lparr> ev_id = eventIdRef s, ev_type = ty, ev_token = tok, ev_timestamp = now \<rparr>"
  from assms have "sorted (map ev_id (statusEvents s @ [?e]))"
    by (auto simp: log_ordered_def list_all_iff sorted_append)
  then have "sorted (slice_last 5 (map ev_id (statusEvents s @ [?e])))"
    by (rule sorted_slice_last)
  then have "sorted (map ev_id (slice_last 5 (statusEvents s @ [?e])))"
    by (simp add: slice_last_def drop_map)
  moreover from assms have "\<forall>e \<in> set (slice_last 5 (statusEvents s @ [?e])). ev_id e \<le> eventIdRef s"
    by (auto simp: log_ordered_def list_all_iff slice_last_def dest!: in_set_dropD)
  ultimately show ?thesis
    by (simp add: log_ordered_def list_all_iff run_updater_log)
qed

lemma log_ordered_updaters:
  "log_ordered s \<Longrightarrow> log_ordered (foldl (\<lambda>st (k, ty, tok). run_updater ty tok (clock k) st) s xs)"
  by (induction xs arbitrary: s) (simp_all add: case_prod_unfold log_ordered_run_updater)

lemma log_ordered_queue: "log_ordered (s\<lparr> pendingStatusEvents := q \<rparr>) = log_ordered s"
  by (simp add: log_ordered_def)

lemma log_ordered_render: "log_ordered s \<Longrightarrow> log_ordered (render clock s)"
  by (simp add: render_def log_ordered_queue log_ordered_updaters)

lemma log_ordered_run_log_ops: "log_ordered s \<Longrightarrow> log_ordered (run_log_ops ops s)"
proof (induction ops arbitrary: s)
  case Nil
  then show ?case by simp
next
  case (Cons op ops)
  then show ?case
    by (cases op) (simp_all add: log_ordered_addEvent log_ordered_render)
qed

text \<open>When an updater runs on a full log whose ids are in order, no entry of the new log has
  an id below that of the entry dropped.\<close>

lemma evicted_id_least:
  assumes "log_ordered s" "length (statusEvents s) = 5"
  shows "list_all (\<lambda>e. ev_id (hd (statusEvents s)) \<le> ev_id e) (statusEvents (run_updater ty tok now s))"
proof -
  from assms(2) obtain x xs where x: "statusEvents s = x # xs"
    by (cases "statusEvents s") simp_all
  have "statusEvents (run_updater ty tok now s)
      = xs @ [\<lparr> ev_id = eventIdRef s, ev_type = ty, ev_token = tok, ev_timestamp = now \<rparr>]"
    using slice_last_full [OF assms(2)] by (simp add: run_updater_log x)
  with assms(1) show ?thesis
    by (auto simp: x log_ordered_def list_all_iff)
qed

subsection \<open>The log under the component's timer firings\<close>

lemma cs_run_callback_log:
  "statusEvents (cs_run_callback steps cb s) = statusEvents s"
  by (simp add: cs_run_callback_def processStep_def csStrike_def csHide_def csCorrect_def csSettle_def
        Let_def split: cs_callback.splits anim_step.splits)

lemma cs_fire_ref_length:
  "length (statusEvents s) \<le> 5 \<Longrightarrow> length (statusEvents (cs_fire_ref steps clock s)) \<le> 5"
  by (simp add: cs_fire_ref_def render_length cs_run_callback_log split: option.splits prod.splits)

lemma cs_fire_seq_length:
  "length (statusEvents s) \<le> 5 \<Longrightarrow> length (statusEvents (cs_fire_seq steps nows s)) \<le> 5"
proof (induction nows arbitrary: s)
  case Nil
  then show ?case by (simp add: cs_fire_seq_def)
next
  case (Cons now nows)
  from Cons.IH [OF cs_fire_ref_length [OF Cons.prems]] show ?case
    by (simp add: cs_fire_seq_def)
qed

lemma cs_run_callback_ref: "eventIdRef s \<le> eventIdRef (cs_run_callback steps cb s)"
  by (simp add: cs_run_callback_def processStep_def csStrike_def csHide_def csCorrect_def csSettle_def
        Let_def split: cs_callback.splits anim_step.splits)

lemma log_ordered_cs_run_callback:
  assumes "log_ordered s"
  shows "log_ordered (cs_run_callback steps cb s)"
proof -
  from assms have "\<forall>e \<in> set (statusEvents s). ev_id e \<le> eventIdRef s"
    by (simp add: log_ordered_def list_all_iff)
  with cs_run_callback_ref [of s steps cb]
  have "\<forall>e \<in> set (statusEvents s). ev_id e \<le> eventIdRef (cs_run_callback steps cb s)"
    by fastforce
  with assms show ?thesis
    by (simp add: log_ordered_def list_all_iff cs_run_callback_log)
qed

lemma log_ordered_timers: "log_ordered (s\<lparr> cs_timers := ts \<rparr>) = log_ordered s"
  by (simp add: log_ordered_def)

lemma log_ordered_cs_fire_ref: "log_ordered s \<Longrightarrow> log_ordered (cs_fire_ref steps clock s)"
  by (simp add: cs_fire_ref_def log_ordered_render log_ordered_cs_run_callback log_ordered_timers
        split: option.splits prod.splits)

lemma log_ordered_cs_fire_seq: "log_ordered s \<Longrightarrow> log_ordered (cs_fire_seq steps nows s)"
proof (induction nows arbitrary: s)
  case Nil
  then show ?case by (simp add: cs_fire_seq_def)
next
  case (Cons now nows)
  from Cons.IH [OF log_ordered_cs_fire_ref [OF Cons.prems]] show ?case
    by (simp add: cs_fire_seq_def)
qed

text \<open>One firing appends to the log, in one render, the events of the calls that its
  callback made; they all carry the id that the ref has reached by then.\<close>

lemma cs_fire_ref_log:
  assumes "length (statusEvents s) \<le> 5"
  shows "\<exists>new. statusEvents (cs_fire_ref steps clock s) = slice_last 5 (statusEvents s @ new) \<and>
           (\<forall>e \<in> set new. ev_id e = eventIdRef (cs_fire_ref steps clock s))"
proof (cases "pending (cs_timeoutRef s) (cs_timers s)")
  case None
  then have "cs_fire_ref steps clock s = s"
    by (auto simp: cs_fire_ref_def pending_def split: option.splits)
  with assms have "statusEvents (cs_fire_ref steps clock s) = slice_last 5 (statusEvents s @ [])"
    by (simp add: slice_last_short)
  then show ?thesis by fastforce
next
  case (Some cb)
  then obtain tid i d where t: "cs_timeoutRef s = Some tid"
    and f: "find (\<lambda>t. fst t = tid) (cs_timers s) = Some (i, d, cb)"
    by (auto simp: pending_def split: option.splits)
  let ?s = "cs_run_callback steps cb (s\<lparr> cs_timers := filter (\<lambda>t. fst t \<noteq> tid) (cs_timers s) \<rparr>)"
  let ?new = "map (\<lambda>(k, ty, tok). \<lparr> ev_id = eventIdRef ?s, ev_type = ty, ev_token = tok, ev_timestamp = clock k \<rparr>)
                (enumerate 0 (pendingStatusEvents ?s))"
  have e: "cs_fire_ref steps clock s = render clock ?s"
    by (simp add: cs_fire_ref_def t f)
  have l: "statusEvents ?s = statusEvents s"
    by (simp add: cs_run_callback_log)
  with assms have "statusEvents (render clock ?s) = slice_last 5 (statusEvents s @ ?new)"
    by (simp add: render_log)
  moreover have "\<forall>e \<in> set ?new. ev_id e = eventIdRef (render clock ?s)"
    by (auto simp: case_prod_unfold)
  ultimately show ?thesis
    unfolding e by blast
qed

text \<open>The first four firings on three steps, two accepted and one rejection: the two calls of
  an accepted step are run in one render, so their events share an id.\<close>

lemma chat_stream_log_example:
  "map ev_id (statusEvents (cs_fire_seq
      [AcceptedStep \<lparr> tok_text = ''The'', tok_type = Accepted \<rparr> 0,
       AcceptedStep \<lparr> tok_text = '' theory'', tok_type = Accepted \<rparr> 1,
       RejectionStep \<lparr> tok_text = '' the early'', tok_type = Rejected \<rparr>
         \<lparr> tok_text = '' 1905'', tok_type = Corrected \<rparr> 2 3]
      [\<lambda>k. 10, \<lambda>k. 20, \<lambda>k. 30, \<lambda>k. 40] (chat_mount init_chat_stream)))
   = [2, 4, 4, 5, 6]"
  by (simp add: cs_fire_seq_def cs_fire_ref_def chat_mount_def init_chat_stream_def
        cs_run_callback_def processStep_def csStrike_def Let_def render_def run_updater_def
        addEvent_def cs_setTimeout_ref_def slice_last_def)

text \<open>
  Claim C6. The status event log never holds more than five entries: not after any sequence
  of \<^verbatim>\<open>addEvent\<close> calls and renders, and not after any sequence of the component's timer
  firings. It is the last five of everything appended so far, in the order of appending,
  and the events are appended in the order of the calls. An updater that runs on a log of
  fewer than five entries appends its event; on a log of five it drops exactly the first
  entry, the one appended earliest, and keeps the others in order. The ids in the log
  never decrease along it (two calls run in one render give their events the same id), so
  the entry dropped has an id that no entry of the new log is below.
\<close>

theorem event_log_bounded_fifo:
  assumes "length (statusEvents s) \<le> 5"
  shows "length (statusEvents (run_log_ops ops s)) \<le> 5 \<and>
     length (statusEvents (cs_fire_seq steps nows s)) \<le> 5 \<and>
     statusEvents (run_log_ops ops s)
       = slice_last 5 (statusEvents s @ appended_events (eventIdRef s) (pendingStatusEvents s) ops) \<and>
     map (\<lambda>e. (ev_type e, ev_token e)) (appended_events (eventIdRef s) (pendingStatusEvents s) ops)
         @ pendingStatusEvents (run_log_ops ops s)
       = pendingStatusEvents s @ event_calls ops \<and>
     (length (statusEvents s) < 5 \<longrightarrow>
        statusEvents (run_updater ty tok now s) = statusEvents s @
          [\<lparr> ev_id = eventIdRef s, ev_type = ty, ev_token = tok, ev_timestamp = now \<rparr>]) \<and>
     (length (statusEvents s) = 5 \<longrightarrow>
        statusEvents (run_updater ty tok now s) = tl (statusEvents s) @
          [\<lparr> ev_id = eventIdRef s, ev_type = ty, ev_token = tok, ev_timestamp = now \<rparr>]) \<and>
     (log_ordered s \<longrightarrow>
        log_ordered (run_log_ops ops s) \<and> log_ordered (cs_fire_seq steps nows s) \<and>
        log_ordered (run_updater ty tok now s)) \<and>
     (log_ordered s \<and> length (statusEvents s) = 5 \<longrightarrow>
        list_all (\<lambda>e. ev_id (hd (statusEvents s)) \<le> ev_id e) (statusEvents (run_updater ty tok now s)))"
proof -
  have c: "statusEvents (run_log_ops ops s)
           = slice_last 5 (statusEvents s @ appended_events (eventIdRef s) (pendingStatusEvents s) ops)"
    using assms by (rule run_log_ops_closed)
  have l: "length (statusEvents (run_log_ops ops s)) \<le> 5"
    unfolding c by (rule length_slice_last)
  have f: "length (statusEvents (cs_fire_seq steps nows s)) \<le> 5"
    using assms by (rule cs_fire_seq_length)
  have a: "length (statusEvents s) < 5 \<longrightarrow>
           statusEvents (run_updater ty tok now s) = statusEvents s @
             [\<lparr> ev_id = eventIdRef s, ev_type = ty, ev_token = tok, ev_timestamp = now \<rparr>]"
    by (simp add: run_updater_log slice_last_def)
  have b: "length (statusEvents s) = 5 \<longrightarrow>
           statusEvents (run_updater ty tok now s) = tl (statusEvents s) @
             [\<lparr> ev_id = eventIdRef s, ev_type = ty, ev_token = tok, ev_timestamp = now \<rparr>]"
    by (simp add: run_updater_log slice_last_full)
  have i: "log_ordered s \<longrightarrow>
        log_ordered (run_log_ops ops s) \<and> log_ordered (cs_fire_seq steps nows s) \<and>
        log_ordered (run_updater ty tok now s)"
    by (simp add: log_ordered_run_log_ops log_ordered_cs_fire_seq log_ordered_run_updater)
  have e: "log_ordered s \<and> length (statusEvents s) = 5 \<longrightarrow>
        list_all (\<lambda>e. ev_id (hd (statusEvents s)) \<le> ev_id e) (statusEvents (run_updater ty tok now s))"
    by (simp add: evicted_id_least)
  from l f c run_log_ops_order [of s ops] a b i e show ?thesis by (intro conjI)
qed

theorem event_log_bounded_fifo_witness:
  "length (statusEvents init_chat_stream) \<le> 5 \<and> log_ordered init_chat_stream \<and>
   length (statusEvents (run_log_ops
      [AddEvent EvDraft ''a'', AddEvent EvVerified ''a'', Render (\<lambda>k. 10),
       AddEvent EvDraft ''b'', AddEvent EvVerified ''b'', Render (\<lambda>k. 20),
       AddEvent EvDraft ''c'', Render (\<lambda>k. 30), AddEvent EvRejected ''c'', Render (\<lambda>k. 40)]
      init_chat_stream)) \<le> 5 \<and>
   map ev_id (statusEvents (run_log_ops
      [AddEvent EvDraft ''a'', AddEvent EvVerified ''a'', Render (\<lambda>k. 10),
       AddEvent EvDraft ''b'', AddEvent EvVerified ''b'', Render (\<lambda>k. 20),
       AddEvent EvDraft ''c'', Render (\<lambda>k. 30), AddEvent EvRejected ''c'', Render (\<lambda>k. 40)]
      init_chat_stream)) = [2, 4, 4, 5, 6] \<and>
   log_ordered (run_log_ops
      [AddEvent EvDraft ''a'', AddEvent EvVerified ''a'', Render (\<lambda>k. 10),
       AddEvent EvDraft ''b'', AddEvent EvVerified ''b'', Render (\<lambda>k. 20),
       AddEvent EvDraft ''c'', Render (\<lambda>k. 30), AddEvent EvRejected ''c'', Render (\<lambda>k. 40)]
      init_chat_stream)"
proof -
  let ?ops = "[AddEvent EvDraft ''a'', AddEvent EvVerified ''a'', Render (\<lambda>k. 10),
       AddEvent EvDraft ''b'', AddEvent EvVerified ''b'', Render (\<lambda>k. 20),
       AddEvent EvDraft ''c'', Render (\<lambda>k. 30), AddEvent EvRejected ''c'', Render (\<lambda>k. 40)]"
  have h: "length (statusEvents init_chat_stream) \<le> 5"
    and o: "log_ordered init_chat_stream"
    and i: "statusEvents init_chat_stream = []" "eventIdRef init_chat_stream = 0"
      "pendingStatusEvents init_chat_stream = []"
    by (simp_all add: init_chat_stream_def log_ordered_def)
  have u: "map ev_id (slice_last 5 (statusEvents init_chat_stream @
      appended_events (eventIdRef init_chat_stream) (pendingStatusEvents init_chat_stream) ?ops))
      = [2, 4, 4, 5, 6]"
    by (simp add: i slice_last_def)
  note t = event_log_bounded_fifo [OF h, of ?ops]
  from t have l: "length (statusEvents (run_log_ops ?ops init_chat_stream)) \<le> 5"
    by blast
  from t have "statusEvents (run_log_ops ?ops init_chat_stream)
      = slice_last 5 (statusEvents init_chat_stream @
          appended_events (eventIdRef init_chat_stream) (pendingStatusEvents init_chat_stream) ?ops)"
    by blast
  with u have m: "map ev_id (statusEvents (run_log_ops ?ops init_chat_stream)) = [2, 4, 4, 5, 6]"
    by (simp only:)
  from t have "log_ordered init_chat_stream \<longrightarrow> log_ordered (run_log_ops ?ops init_chat_stream)"
    by blast
  with o have g: "log_ordered (run_log_ops ?ops init_chat_stream)"
    by blast
  from h o l m g show ?thesis by (intro conjI)
qed
section \<open>Frame lemmas\<close>

lemma setTimeout_frame [simp]:
  "phase (setTimeout cb d s) = phase s"
  "visibleTokens (setTimeout cb d s) = visibleTokens s"
  "done_flag (setTimeout cb d s) = done_flag s"
  "counts (setTimeout cb d s) = counts s"
  "isStreaming (setTimeout cb d s) = isStreaming s"
  "acceptanceRate (setTimeout cb d s) = acceptanceRate s"
  "totalInferenceTimeSavedMs (setTimeout cb d s) = totalInferenceTimeSavedMs s"
  "costSavingsDollars (setTimeout cb d s) = costSavingsDollars s"
  "acceptedDraftTokens (setTimeout cb d s) = acceptedDraftTokens s"
  "stepIdx (setTimeout cb d s) = stepIdx s"
  "runs (setTimeout cb d s) = runs s"
  "timeoutRef (setTimeout cb d s) = timeoutRef s"
  "cleanupRef (setTimeout cb d s) = cleanupRef s"
  "backendOnline (setTimeout cb d s) = backendOnline s"
  "timers (setTimeout cb d s) = timers s @ [(nextTimer s, d, cb)]"
  "nextTimer (setTimeout cb d s) = nextTimer s + 1"
  by (simp_all add: setTimeout_def)

lemma setTimeout_ref_frame [simp]:
  "phase (setTimeout_ref cb d s) = phase s"
  "visibleTokens (setTimeout_ref cb d s) = visibleTokens s"
  "done_flag (setTimeout_ref cb d s) = done_flag s"
  "counts (setTimeout_ref cb d s) = counts s"
  "isStreaming (setTimeout_ref cb d s) = isStreaming s"
  "stepIdx (setTimeout_ref cb d s) = stepIdx s"
  "runs (setTimeout_ref cb d s) = runs s"
  "timeoutRef (setTimeout_ref cb d s) = Some (nextTimer s)"
  "timers (setTimeout_ref cb d s) = timers s @ [(nextTimer s, d, cb)]"
  "nextTimer (setTimeout_ref cb d s) = nextTimer s + 1"
  by (simp_all add: setTimeout_ref_def setTimeout_def)

lemma clearTimeout_frame [simp]:
  "phase (clearTimeout tid s) = phase s"
  "visibleTokens (clearTimeout tid s) = visibleTokens s"
  "done_flag (clearTimeout tid s) = done_flag s"
  "counts (clearTimeout tid s) = counts s"
  "isStreaming (clearTimeout tid s) = isStreaming s"
  "stepIdx (clearTimeout tid s) = stepIdx s"
  "runs (clearTimeout tid s) = runs s"
  "timeoutRef (clearTimeout tid s) = timeoutRef s"
  "timers (clearTimeout tid s) = filter (\<lambda>t. fst t \<noteq> tid) (timers s)"
  "nextTimer (clearTimeout tid s) = nextTimer s"
  by (simp_all add: clearTimeout_def)

text \<open>The definitions that evaluating a run unfolds.\<close>

lemmas live_defs =
  run_events_def apply_event_def input_disabled_def health_effect_def handleSubmit_def
  cleanup_def upd_run_def onMessage_def onError_def onClose_def processTokenQueue_def
  liveStrike_def liveHide_def liveFilter_def liveSettle_def checkDone_def fire_def
  run_callback_def set_phase_at_last_def findLastIndex_def without_hidden_def
  set_last_phase_def updateLiveSavingsFromAcceptedTokens_def init_dashboard_def
  setTimeout_def setTimeout_ref_def clearTimeout_def

lemmas demo_defs =
  health_effect_def init_dashboard_def fire_def run_callback_def processDemoStep_def
  demoStrike_def demoHide_def demoCorrect_def demoSettle_def set_last_phase_def without_hidden_def

lemma run_demo_unfold:
  "run_demo fuel steps s =
     (if fuel = 0 then s
      else case timeoutRef s of
        None \<Rightarrow> s
      | Some tid \<Rightarrow>
          if find (\<lambda>t. fst t = tid) (timers s) = None then s
          else run_demo (fuel - 1) steps (fire steps tid s))"
  by (cases fuel) (auto split: option.splits)

section \<open>Properties of the live adapter's metrics\<close>

text \<open>The numbers that the literals of the metrics denote, and two products: 0.75 times 100
  is 75 without rounding, whereas 0.07 times 100 is rounded to the neighbour of 7.\<close>

lemma bitlen_numeral [simp]:
  "bitlen 0 = 0"
  "bitlen (numeral k) = Suc (bitlen (numeral k div 2))"
  by (simp_all add: bitlen.simps [of 0] bitlen.simps [of "numeral k"])

lemma bitlen_one [simp]: "bitlen (Suc 0) = 1"
  by (simp add: bitlen.simps [of "Suc 0"])

lemma js_literals:
  "js_of_int 100 = Finite False 7036874417766400 (- 46)"
  "js_of_int 75 = Finite False 5277655813324800 (- 46)"
  "js_of_int 7 = Finite False 7881299347898368 (- 50)"
  "js_lit 75 100 = Finite False 6755399441055744 (- 53)"
  "js_lit 7 100 = Finite False 5044031582654956 (- 56)"
  by (simp_all add: js_of_int_def js_lit_def round_pack_def Let_def)


lemma js_mul_rounded_example:
  "js_mul (js_lit 7 100) (js_of_int 100) = Finite False 7881299347898369 (- 50)"
  "js_mul (js_lit 7 100) (js_of_int 100) \<noteq> js_of_int 7"
  by (simp_all add: js_literals round_pack_def Let_def)


text \<open>Rounding is to a nearest representable value: the result of \<^const>\<open>round_pack\<close> differs
  from the exact value by at most half a unit of its last place, and so does a finite
  product.\<close>

lemma bitlen_bounds: "0 < m \<Longrightarrow> 2 ^ (bitlen m - 1) \<le> m \<and> m < 2 ^ bitlen m"
proof (induction m rule: bitlen.induct)
  case (1 n)
  show ?case
  proof (cases "n div 2 = 0")
    case True
    with "1.prems" have "n = 1" by presburger
    then show ?thesis
      by (simp add: bitlen.simps [of "Suc 0"] bitlen.simps [of 0])
  next
    case False
    with "1.IH" "1.prems" have ih: "2 ^ (bitlen (n div 2) - 1) \<le> n div 2" "n div 2 < 2 ^ bitlen (n div 2)"
      by simp_all
    from False have pos: "0 < bitlen (n div 2)"
      by (subst bitlen.simps) simp
    have b: "bitlen n = Suc (bitlen (n div 2))"
      using "1.prems" by (subst bitlen.simps) simp
    from ih(1) have "2 * 2 ^ (bitlen (n div 2) - 1) \<le> n" by linarith
    moreover have "(2::nat) * 2 ^ (bitlen (n div 2) - 1) = 2 ^ bitlen (n div 2)"
      using pos by (cases "bitlen (n div 2)") simp_all
    moreover from ih(2) have "n < 2 * 2 ^ bitlen (n div 2)" by linarith
    ultimately show ?thesis by (simp add: b)
  qed
qed

lemma pow2_nat: "0 \<le> sh \<Longrightarrow> (2::real) ^ nat sh = 2 powi sh"
  by (simp add: power_int_def)

lemma pow2_shift: "0 \<le> sh \<Longrightarrow> real (a * 2 ^ nat sh) * 2 powi e = real a * 2 powi (e + sh)"
  by (simp add: pow2_nat power_int_add mult.commute mult.left_commute)

lemma round_pack_sign: "round_pack sg m e = Finite sg' q e' \<Longrightarrow> sg' = sg"
  by (auto simp: round_pack_def Let_def split: if_splits)

lemma round_pack_error:
  assumes "round_pack sg m e = Finite sg' q e'"
  shows "\<bar>real q * 2 powi e' - real m * 2 powi e\<bar> \<le> 2 powi (e' - 1)"
proof (cases "m = 0")
  case True
  with assms show ?thesis by (auto simp: round_pack_def)
next
  case False
  define sh where "sh = max (int (bitlen m) - 53) (- 1074 - e)"
  show ?thesis
  proof (cases "sh \<le> 0")
    case True
    define l where "l = min (53 - int (bitlen m)) (e + 1074)"
    from True have l0: "0 \<le> l" by (simp add: l_def sh_def)
    from assms False True have "q = m * 2 ^ nat l" "e' = e - l"
      by (auto simp: round_pack_def Let_def sh_def l_def split: if_splits)
    then have "real q * 2 powi e' = real m * 2 powi e"
      using pow2_shift [OF l0, of m "e - l"] by simp
    then show ?thesis by simp
  next
    case False
    then have sh: "0 < sh" by simp
    define q0 where "q0 = m div 2 ^ nat sh"
    define r where "r = m mod 2 ^ nat sh"
    define half :: nat where "half = 2 ^ nat (sh - 1)"
    define q1 where "q1 = (if r > half \<or> (r = half \<and> odd q0) then q0 + 1 else q0)"
    have m: "m = q0 * 2 ^ nat sh + r"
      unfolding q0_def r_def by (rule div_mult_mod_eq [symmetric])
    have r: "r < 2 ^ nat sh" by (simp add: r_def)
    have hh: "(2::nat) ^ nat sh = 2 * half"
    proof -
      from sh have "nat sh = Suc (nat (sh - 1))" by simp
      then show ?thesis by (simp add: half_def)
    qed
    have rp: "round_pack sg m e =
        (if (if q1 = 2 ^ 53 then e + sh + 1 else e + sh) > 971 then Infinity sg
         else Finite sg (if q1 = 2 ^ 53 then 2 ^ 52 else q1) (if q1 = 2 ^ 53 then e + sh + 1 else e + sh))"
      using \<open>m \<noteq> 0\<close> False
      unfolding round_pack_def Let_def sh_def q1_def q0_def r_def half_def
      by (simp only: if_False)
    have res: "(q = 2 ^ 52 \<and> e' = e + sh + 1 \<and> q1 = 2 ^ 53) \<or> (q = q1 \<and> e' = e + sh)"
    proof (cases "q1 = 2 ^ 53")
      case True
      with assms rp show ?thesis
        by (cases "e + sh + 1 > 971") simp_all
    next
      case False
      with assms rp show ?thesis
        by (cases "e + sh > 971") simp_all
    qed
    have v: "real q * 2 powi e' = real q1 * 2 powi (e + sh)"
    proof -
      have "(2::real) ^ 52 * 2 powi (e + sh + 1) = 2 ^ 53 * 2 powi (e + sh)"
        by (simp add: power_int_add)
      with res show ?thesis by auto
    qed
    have le: "e + sh \<le> e'" using res by auto
    have "real q1 * 2 powi (e + sh) = real (q1 * 2 ^ nat sh) * 2 powi e"
      by (rule pow2_shift [symmetric]) (use sh in simp)
    then have "real q * 2 powi e' - real m * 2 powi e
        = (real (q1 * 2 ^ nat sh) - real m) * 2 powi e"
      by (simp add: v algebra_simps)
    moreover have "\<bar>real (q1 * 2 ^ nat sh) - real m\<bar> \<le> real half"
    proof (cases "q1 = q0")
      case True
      then have "r \<le> half" by (auto simp: q1_def split: if_splits)
      moreover have "real (q1 * 2 ^ nat sh) - real m = - real r"
        by (simp add: True m)
      ultimately show ?thesis by simp
    next
      case False
      then have q: "q1 = q0 + 1" and "half \<le> r" by (auto simp: q1_def split: if_splits)
      moreover have "real (q1 * 2 ^ nat sh) - real m = real (2 * half) - real r"
      proof -
        have "q1 * 2 ^ nat sh = m - r + 2 * half" "r \<le> m"
          using m by (simp_all add: q hh)
        then show ?thesis by simp
      qed
      ultimately show ?thesis using r hh by simp
    qed
    ultimately have "\<bar>real q * 2 powi e' - real m * 2 powi e\<bar> \<le> real half * 2 powi e"
      by (simp add: abs_mult mult_right_mono)
    also have "real half * 2 powi e = 2 powi (e + sh - 1)"
    proof -
      have "real half = 2 powi (sh - 1)"
        using sh pow2_nat [of "sh - 1"] by (simp add: half_def)
      then have "real half * 2 powi e = 2 powi ((sh - 1) + e)"
        by (simp add: power_int_add)
      also have "(sh - 1) + e = e + sh - 1" by simp
      finally show ?thesis .
    qed
    also have "\<dots> \<le> 2 powi (e' - 1)"
      using le by (intro power_int_increasing) simp_all
    finally show ?thesis .
  qed
qed

lemma js_mul_error:
  assumes "js_mul (Finite a m e) (Finite b n f) = Finite sg q g"
  shows "\<bar>real q * 2 powi g - (real m * 2 powi e) * (real n * 2 powi f)\<bar> \<le> 2 powi (g - 1)"
proof -
  from assms have "round_pack (a \<noteq> b) (m * n) (e + f) = Finite sg q g" by simp
  then have "\<bar>real q * 2 powi g - real (m * n) * 2 powi (e + f)\<bar> \<le> 2 powi (g - 1)"
    by (rule round_pack_error)
  moreover have "(2::real) powi (e + f) = 2 powi e * 2 powi f"
    by (simp add: power_int_add)
  then have "real (m * n) * 2 powi (e + f) = (real m * 2 powi e) * (real n * 2 powi f)"
    by simp
  ultimately show ?thesis by (simp only:)
qed



section \<open>Error and closure handling\<close>

text \<open>
  Claim C7, as amended. An \<^verbatim>\<open>error\<close> message, and the transport's error callback, force
  the phase to idle and \<^verbatim>\<open>done\<close> to true and clear the streaming flag; the transport's
  close callback clears the streaming flag only and leaves the phase and \<^verbatim>\<open>done\<close> as they
  are. All three leave the visible tokens and the counts in place.
\<close>

theorem error_and_close_handling:
  assumes "r < length (runs s)" "transportOpen (runs s ! r)"
  shows
   "(let s' = apply_event steps (Message r (ErrorMsg m)) s in
       phase s' = Idle \<and> done_flag s' \<and> \<not> isStreaming s' \<and>
       visibleTokens s' = visibleTokens s \<and> counts s' = counts s) \<and>
    (let s' = apply_event steps (TransportError r) s in
       phase s' = Idle \<and> done_flag s' \<and> \<not> isStreaming s' \<and>
       visibleTokens s' = visibleTokens s \<and> counts s' = counts s) \<and>
    (let s' = apply_event steps (TransportClose r) s in
       phase s' = phase s \<and> done_flag s' = done_flag s \<and> \<not> isStreaming s' \<and>
       visibleTokens s' = visibleTokens s \<and> counts s' = counts s)"
  using assms
  by (simp add: apply_event_def onMessage_def onError_def onClose_def upd_run_def Let_def)

theorem error_and_close_handling_witness:
  "0 < length (runs mid_stream_state) \<and> transportOpen (runs mid_stream_state ! 0) \<and>
   phase mid_stream_state = Correcting \<and>
   phase (apply_event DEMO_STEPS (Message 0 (ErrorMsg ''failed'')) mid_stream_state) = Idle \<and>
   done_flag (apply_event DEMO_STEPS (Message 0 (ErrorMsg ''failed'')) mid_stream_state) \<and>
   visibleTokens (apply_event DEMO_STEPS (Message 0 (ErrorMsg ''failed'')) mid_stream_state)
     = [\<lparr> vt_text = '' 1905'', vt_type = Corrected, vt_phase = Appearing \<rparr>] \<and>
   phase (apply_event DEMO_STEPS (TransportError 0) mid_stream_state) = Idle \<and>
   \<not> isStreaming (apply_event DEMO_STEPS (TransportClose 0) mid_stream_state)"
proof -
  have h1: "0 < length (runs mid_stream_state)"
    and h2: "transportOpen (runs mid_stream_state ! 0)"
    and p: "phase mid_stream_state = Correcting"
    and v: "visibleTokens mid_stream_state
              = [\<lparr> vt_text = '' 1905'', vt_type = Corrected, vt_phase = Appearing \<rparr>]"
    by (simp_all add: mid_stream_state_def live_defs ev_corrected_def Let_def)
  from error_and_close_handling [OF h1 h2, of DEMO_STEPS "''failed''"] h1 h2 p v
  show ?thesis by (simp add: Let_def)
qed

text \<open>
  Claim C7 as stated fails for the transport closing: closing the transport of a run in
  mid-stream leaves the phase at correcting and \<^verbatim>\<open>done\<close> unset.
\<close>

theorem transport_close_counterexample:
  "phase (apply_event DEMO_STEPS (TransportClose 0) mid_stream_state) = Correcting \<and>
   \<not> done_flag (apply_event DEMO_STEPS (TransportClose 0) mid_stream_state) \<and>
   \<not> isStreaming (apply_event DEMO_STEPS (TransportClose 0) mid_stream_state)"
  by (simp add: mid_stream_state_def live_defs ev_corrected_def Let_def)

section \<open>Processing one step\<close>

lemma find_fresh:
  "fresh_ids n ts \<Longrightarrow> find (\<lambda>t. fst t = n) (ts @ [(n, d, cb)]) = Some (n, d, cb)"
  by (induction ts) (auto simp: fresh_ids_def)

lemma fresh_ids_filter: "fresh_ids n ts \<Longrightarrow> fresh_ids n (filter P ts)"
  by (simp add: fresh_ids_def list_all_iff)

lemma fresh_ids_snoc: "fresh_ids n ts \<Longrightarrow> fresh_ids (Suc n) (ts @ [(n, x)])"
  by (auto simp: fresh_ids_def list_all_iff)

lemma ready_setTimeout_ref:
  "fresh_ids (nextTimer s) (timers s) \<Longrightarrow> ready cb (setTimeout_ref cb d s)"
  by (simp add: ready_def pending_def find_fresh fresh_ids_snoc)

lemma fire_ref_ready:
  assumes "ready cb s"
  shows "fire_ref steps s = run_callback steps cb (clearTimeout (the (timeoutRef s)) s)"
proof -
  from assms obtain tid where t: "timeoutRef s = Some tid"
    by (auto simp: ready_def pending_def split: option.splits)
  with assms obtain e where f: "find (\<lambda>t. fst t = tid) (timers s) = Some e" and c: "snd (snd e) = cb"
    by (auto simp: ready_def pending_def)
  obtain i d cb' where e: "e = (i, d, cb')" by (cases e)
  with f c t show ?thesis
    by (simp add: fire_ref_def fire_def)
qed

lemma ready_fresh_cleared:
  "ready cb s \<Longrightarrow> fresh_ids (nextTimer s) (filter P (timers s))"
  by (simp add: ready_def fresh_ids_filter)

lemma demo_accepted_firing:
  assumes "ready ProcessDemoStep s" "stepIdx s < length steps"
    "steps ! stepIdx s = AcceptedStep tok idx"
  shows "ready ProcessDemoStep (fire_ref steps s)"
    and "stepIdx (fire_ref steps s) = stepIdx s + 1"
    and "counts (fire_ref steps s) =
           (counts s)\<lparr> drafted := drafted (counts s) + 1,
              accepted := (if tok_type tok = Accepted then accepted (counts s) + 1 else accepted (counts s)),
              corrected := (if tok_type tok = Corrected then corrected (counts s) + 1 else corrected (counts s)) \<rparr>"
  using assms
  by (simp_all add: fire_ref_ready run_callback_def processDemoStep_def Let_def
        ready_setTimeout_ref ready_fresh_cleared)

lemma demo_rejection_firing1:
  assumes "ready ProcessDemoStep s" "stepIdx s < length steps"
    "steps ! stepIdx s = RejectionStep rej corr i j"
  shows "ready (DemoStrike rej corr) (fire_ref steps s)"
    and "stepIdx (fire_ref steps s) = stepIdx s + 1"
    and "counts (fire_ref steps s) = (counts s)\<lparr> drafted := drafted (counts s) + 1 \<rparr>"
  using assms
  by (simp_all add: fire_ref_ready run_callback_def processDemoStep_def Let_def
        ready_setTimeout_ref ready_fresh_cleared)

lemma demo_rejection_firing2:
  assumes "ready (DemoStrike rej corr) s"
  shows "ready (DemoHide rej corr) (fire_ref steps s)"
    and "stepIdx (fire_ref steps s) = stepIdx s"
    and "counts (fire_ref steps s) = (counts s)\<lparr> rejected := rejected (counts s) + 1 \<rparr>"
  using assms
  by (simp_all add: fire_ref_ready run_callback_def demoStrike_def Let_def
        ready_setTimeout_ref ready_fresh_cleared)

lemma demo_rejection_firing3:
  assumes "ready (DemoHide rej corr) s"
  shows "ready (DemoCorrect rej corr) (fire_ref steps s)"
    and "stepIdx (fire_ref steps s) = stepIdx s"
    and "counts (fire_ref steps s) = counts s"
  using assms
  by (simp_all add: fire_ref_ready run_callback_def demoHide_def Let_def
        ready_setTimeout_ref ready_fresh_cleared)

lemma demo_rejection_firing4:
  assumes "ready (DemoCorrect rej corr) s"
  shows "ready DemoSettle (fire_ref steps s)"
    and "stepIdx (fire_ref steps s) = stepIdx s"
    and "counts (fire_ref steps s) =
           (counts s)\<lparr> drafted := drafted (counts s) + 1, corrected := corrected (counts s) + 1 \<rparr>"
  using assms
  by (simp_all add: fire_ref_ready run_callback_def demoCorrect_def Let_def
        ready_setTimeout_ref ready_fresh_cleared)

lemma demo_rejection_firing5:
  assumes "ready DemoSettle s"
  shows "ready ProcessDemoStep (fire_ref steps s)"
    and "stepIdx (fire_ref steps s) = stepIdx s"
    and "counts (fire_ref steps s) = counts s"
  using assms
  by (simp_all add: fire_ref_ready run_callback_def demoSettle_def Let_def
        ready_setTimeout_ref ready_fresh_cleared)

lemma demo_rejection_full:
  assumes "ready ProcessDemoStep s" "stepIdx s < length steps"
    "steps ! stepIdx s = RejectionStep rej corr i j"
  shows "ready ProcessDemoStep ((fire_ref steps ^^ 5) s)"
    and "stepIdx ((fire_ref steps ^^ 5) s) = stepIdx s + 1"
    and "counts ((fire_ref steps ^^ 5) s) =
           (counts s)\<lparr> drafted := drafted (counts s) + 2, rejected := rejected (counts s) + 1,
              corrected := corrected (counts s) + 1 \<rparr>"
proof -
  let ?s1 = "fire_ref steps s"
  let ?s2 = "fire_ref steps ?s1"
  let ?s3 = "fire_ref steps ?s2"
  let ?s4 = "fire_ref steps ?s3"
  let ?s5 = "fire_ref steps ?s4"
  have e: "(fire_ref steps ^^ 5) s = ?s5"
    by (simp add: eval_nat_numeral funpow_swap1)
  note f1 = demo_rejection_firing1 [OF assms]
  note f2 = demo_rejection_firing2 [OF f1(1), of steps]
  note f3 = demo_rejection_firing3 [OF f2(1), of steps]
  note f4 = demo_rejection_firing4 [OF f3(1), of steps]
  note f5 = demo_rejection_firing5 [OF f4(1), of steps]
  show "ready ProcessDemoStep ((fire_ref steps ^^ 5) s)"
    unfolding e by (rule f5(1))
  show "stepIdx ((fire_ref steps ^^ 5) s) = stepIdx s + 1"
    unfolding e by (simp only: f5(2) f4(2) f3(2) f2(2) f1(2))
  show "counts ((fire_ref steps ^^ 5) s) =
           (counts s)\<lparr> drafted := drafted (counts s) + 2, rejected := rejected (counts s) + 1,
              corrected := corrected (counts s) + 1 \<rparr>"
    unfolding e by (simp add: f5(3) f4(3) f3(3) f2(3) f1(3))
qed

lemma cs_ready_setTimeout_ref:
  "fresh_ids (cs_nextTimer s) (cs_timers s) \<Longrightarrow> cs_ready cb (cs_setTimeout_ref cb d s)"
  by (simp add: cs_ready_def pending_def find_fresh fresh_ids_snoc)

lemma cs_fire_ref_ready:
  assumes "cs_ready cb s"
  shows "cs_fire_ref steps clock s =
     render clock (cs_run_callback steps cb
       (s\<lparr> cs_timers := filter (\<lambda>t. fst t \<noteq> the (cs_timeoutRef s)) (cs_timers s) \<rparr>))"
proof -
  from assms obtain tid where t: "cs_timeoutRef s = Some tid"
    by (auto simp: cs_ready_def pending_def split: option.splits)
  with assms obtain e where f: "find (\<lambda>t. fst t = tid) (cs_timers s) = Some e" and c: "snd (snd e) = cb"
    by (auto simp: cs_ready_def pending_def)
  obtain i d cb' where e: "e = (i, d, cb')" by (cases e)
  with f c t show ?thesis
    by (simp add: cs_fire_ref_def)
qed

lemma cs_ready_render [simp]: "cs_ready cb (render clock s) = cs_ready cb s"
  by (simp add: cs_ready_def)

lemma cs_ready_fresh_cleared:
  "cs_ready cb s \<Longrightarrow> fresh_ids (cs_nextTimer s) (filter P (cs_timers s))"
  by (simp add: cs_ready_def fresh_ids_filter)

lemma chat_accepted_firing:
  assumes "cs_ready ProcessStep s" "cs_stepIdx s < length steps"
    "steps ! cs_stepIdx s = AcceptedStep tok idx"
  shows "cs_ready ProcessStep (cs_fire_ref steps clock s)"
    and "cs_stepIdx (cs_fire_ref steps clock s) = cs_stepIdx s + 1"
    and "cs_counts (cs_fire_ref steps clock s) =
           (cs_counts s)\<lparr> drafted := drafted (cs_counts s) + 1,
              accepted := (if tok_type tok = Accepted then accepted (cs_counts s) + 1 else accepted (cs_counts s)),
              corrected := (if tok_type tok = Corrected then corrected (cs_counts s) + 1 else corrected (cs_counts s)) \<rparr>"
  using assms
  by (simp_all add: cs_fire_ref_ready cs_run_callback_def processStep_def Let_def
        cs_ready_setTimeout_ref cs_ready_fresh_cleared)

lemma chat_rejection_firing1:
  assumes "cs_ready ProcessStep s" "cs_stepIdx s < length steps"
    "steps ! cs_stepIdx s = RejectionStep rej corr i j"
  shows "cs_ready (CsStrike rej corr) (cs_fire_ref steps clock s)"
    and "cs_stepIdx (cs_fire_ref steps clock s) = cs_stepIdx s + 1"
    and "cs_counts (cs_fire_ref steps clock s) = (cs_counts s)\<lparr> drafted := drafted (cs_counts s) + 1 \<rparr>"
  using assms
  by (simp_all add: cs_fire_ref_ready cs_run_callback_def processStep_def Let_def
        cs_ready_setTimeout_ref cs_ready_fresh_cleared)

lemma chat_rejection_firing2:
  assumes "cs_ready (CsStrike rej corr) s"
  shows "cs_ready (CsHide rej corr) (cs_fire_ref steps clock s)"
    and "cs_stepIdx (cs_fire_ref steps clock s) = cs_stepIdx s"
    and "cs_counts (cs_fire_ref steps clock s) = (cs_counts s)\<lparr> rejected := rejected (cs_counts s) + 1 \<rparr>"
  using assms
  by (simp_all add: cs_fire_ref_ready cs_run_callback_def csStrike_def Let_def
        cs_ready_setTimeout_ref cs_ready_fresh_cleared)

lemma chat_rejection_firing3:
  assumes "cs_ready (CsHide rej corr) s"
  shows "cs_ready (CsCorrect rej corr) (cs_fire_ref steps clock s)"
    and "cs_stepIdx (cs_fire_ref steps clock s) = cs_stepIdx s"
    and "cs_counts (cs_fire_ref steps clock s) = cs_counts s"
  using assms
  by (simp_all add: cs_fire_ref_ready cs_run_callback_def csHide_def Let_def
        cs_ready_setTimeout_ref cs_ready_fresh_cleared)

lemma chat_rejection_firing4:
  assumes "cs_ready (CsCorrect rej corr) s"
  shows "cs_ready CsSettle (cs_fire_ref steps clock s)"
    and "cs_stepIdx (cs_fire_ref steps clock s) = cs_stepIdx s"
    and "cs_counts (cs_fire_ref steps clock s) =
           (cs_counts s)\<lparr> drafted := drafted (cs_counts s) + 1, corrected := corrected (cs_counts s) + 1 \<rparr>"
  using assms
  by (simp_all add: cs_fire_ref_ready cs_run_callback_def csCorrect_def Let_def
        cs_ready_setTimeout_ref cs_ready_fresh_cleared)

lemma chat_rejection_firing5:
  assumes "cs_ready CsSettle s"
  shows "cs_ready ProcessStep (cs_fire_ref steps clock s)"
    and "cs_stepIdx (cs_fire_ref steps clock s) = cs_stepIdx s"
    and "cs_counts (cs_fire_ref steps clock s) = cs_counts s"
  using assms
  by (simp_all add: cs_fire_ref_ready cs_run_callback_def csSettle_def Let_def
        cs_ready_setTimeout_ref cs_ready_fresh_cleared)

lemma length_5_obtain:
  assumes "length xs = 5"
  obtains a b c d e where "xs = [a, b, c, d, e]"
  using assms by (auto simp: eval_nat_numeral length_Suc_conv)

lemma chat_rejection_full:
  assumes "cs_ready ProcessStep s" "cs_stepIdx s < length steps"
    "steps ! cs_stepIdx s = RejectionStep rej corr i j" "length nows = 5"
  shows "cs_ready ProcessStep (cs_fire_seq steps nows s)"
    and "cs_stepIdx (cs_fire_seq steps nows s) = cs_stepIdx s + 1"
    and "cs_counts (cs_fire_seq steps nows s) =
           (cs_counts s)\<lparr> drafted := drafted (cs_counts s) + 2, rejected := rejected (cs_counts s) + 1,
              corrected := corrected (cs_counts s) + 1 \<rparr>"
proof -
  from assms(4) obtain n1 n2 n3 n4 n5 where n: "nows = [n1, n2, n3, n4, n5]"
    by (rule length_5_obtain)
  let ?s1 = "cs_fire_ref steps n1 s"
  let ?s2 = "cs_fire_ref steps n2 ?s1"
  let ?s3 = "cs_fire_ref steps n3 ?s2"
  let ?s4 = "cs_fire_ref steps n4 ?s3"
  let ?s5 = "cs_fire_ref steps n5 ?s4"
  have e: "cs_fire_seq steps nows s = ?s5"
    by (simp add: cs_fire_seq_def n)
  note f1 = chat_rejection_firing1 [OF assms(1-3), of n1]
  note f2 = chat_rejection_firing2 [OF f1(1), of steps n2]
  note f3 = chat_rejection_firing3 [OF f2(1), of steps n3]
  note f4 = chat_rejection_firing4 [OF f3(1), of steps n4]
  note f5 = chat_rejection_firing5 [OF f4(1), of steps n5]
  show "cs_ready ProcessStep (cs_fire_seq steps nows s)"
    unfolding e by (rule f5(1))
  show "cs_stepIdx (cs_fire_seq steps nows s) = cs_stepIdx s + 1"
    unfolding e by (simp only: f5(2) f4(2) f3(2) f2(2) f1(2))
  show "cs_counts (cs_fire_seq steps nows s) =
           (cs_counts s)\<lparr> drafted := drafted (cs_counts s) + 2, rejected := rejected (cs_counts s) + 1,
              corrected := corrected (cs_counts s) + 1 \<rparr>"
    unfolding e by (simp add: f5(3) f4(3) f3(3) f2(3) f1(3))
qed

lemma ready_health: "ready ProcessDemoStep (health_effect False init_dashboard)"
  by (simp add: ready_def health_effect_def init_dashboard_def pending_def fresh_ids_def)

lemma ready_mount: "cs_ready ProcessStep (chat_mount init_chat_stream)"
  by (simp add: cs_ready_def chat_mount_def init_chat_stream_def pending_def fresh_ids_def)

lemma zero_counts:
  "counts (health_effect False init_dashboard) = \<lparr> accepted = 0, rejected = 0, corrected = 0, drafted = 0 \<rparr>"
  "stepIdx (health_effect False init_dashboard) = 0"
  "cs_counts (chat_mount init_chat_stream) = \<lparr> accepted = 0, rejected = 0, corrected = 0, drafted = 0 \<rparr>"
  "cs_stepIdx (chat_mount init_chat_stream) = 0"
  by (simp_all add: health_effect_def init_dashboard_def chat_mount_def init_chat_stream_def)

text \<open>
  Claim C2, as amended. In both components, processing a rejection step to its end (five
  timer firings) adds exactly 2 to the drafted count, 1 to the rejected count and 1 to the
  corrected count; processing an accepted step (one firing) adds exactly 1 to the drafted
  count, 1 to the accepted count when the wrapped token is tagged accepted and 1 to the
  corrected count when it is tagged corrected, and nothing else. Afterwards the step cursor
  has advanced by one and the component waits to process the next step.
\<close>

theorem step_count_contributions:
  assumes "ready ProcessDemoStep s" "stepIdx s < length steps"
    and "cs_ready ProcessStep t" "cs_stepIdx t < length steps'"
    and "length nows = firings (steps' ! cs_stepIdx t)"
  shows
    "(let s' = (fire_ref steps ^^ firings (steps ! stepIdx s)) s in
        counts s' = step_contribution (steps ! stepIdx s) (counts s) \<and>
        stepIdx s' = stepIdx s + 1 \<and> ready ProcessDemoStep s') \<and>
     (let t' = cs_fire_seq steps' nows t in
        cs_counts t' = step_contribution (steps' ! cs_stepIdx t) (cs_counts t) \<and>
        cs_stepIdx t' = cs_stepIdx t + 1 \<and> cs_ready ProcessStep t')"
proof -
  have d: "let s' = (fire_ref steps ^^ firings (steps ! stepIdx s)) s in
        counts s' = step_contribution (steps ! stepIdx s) (counts s) \<and>
        stepIdx s' = stepIdx s + 1 \<and> ready ProcessDemoStep s'"
  proof (cases "steps ! stepIdx s")
    case (AcceptedStep tok idx)
    from demo_accepted_firing [OF assms(1,2) AcceptedStep] show ?thesis
      by (simp add: AcceptedStep)
  next
    case (RejectionStep rej corr i j)
    from demo_rejection_full [OF assms(1,2) RejectionStep] show ?thesis
      by (simp add: RejectionStep)
  qed
  have c: "let t' = cs_fire_seq steps' nows t in
        cs_counts t' = step_contribution (steps' ! cs_stepIdx t) (cs_counts t) \<and>
        cs_stepIdx t' = cs_stepIdx t + 1 \<and> cs_ready ProcessStep t'"
  proof (cases "steps' ! cs_stepIdx t")
    case (AcceptedStep tok idx)
    with assms(5) obtain now where n: "nows = [now]"
      by (auto simp: length_Suc_conv)
    from chat_accepted_firing [OF assms(3,4) AcceptedStep, of now] show ?thesis
      by (simp add: AcceptedStep n cs_fire_seq_def)
  next
    case (RejectionStep rej corr i j)
    with assms(5) have "length nows = 5" by simp
    from chat_rejection_full [OF assms(3,4) RejectionStep this] show ?thesis
      by (simp add: RejectionStep)
  qed
  from d c show ?thesis by (rule conjI)
qed

theorem step_count_contributions_witness:
  "ready ProcessDemoStep (health_effect False init_dashboard) \<and>
   cs_ready ProcessStep (chat_mount init_chat_stream) \<and>
   counts ((fire_ref [RejectionStep \<lparr> tok_text = '' the early'', tok_type = Rejected \<rparr>
                         \<lparr> tok_text = '' 1905'', tok_type = Corrected \<rparr> 0 1] ^^ 5)
             (health_effect False init_dashboard))
     = \<lparr> accepted = 0, rejected = 1, corrected = 1, drafted = 2 \<rparr> \<and>
   cs_counts (cs_fire_seq [RejectionStep \<lparr> tok_text = '' the early'', tok_type = Rejected \<rparr>
                         \<lparr> tok_text = '' 1905'', tok_type = Corrected \<rparr> 0 1]
             [\<lambda>k. 10, \<lambda>k. 20, \<lambda>k. 30, \<lambda>k. 40, \<lambda>k. 50]
             (chat_mount init_chat_stream))
     = \<lparr> accepted = 0, rejected = 1, corrected = 1, drafted = 2 \<rparr>"
proof -
  let ?steps = "[RejectionStep \<lparr> tok_text = '' the early'', tok_type = Rejected \<rparr>
                         \<lparr> tok_text = '' 1905'', tok_type = Corrected \<rparr> 0 1]"
  have a: "stepIdx (health_effect False init_dashboard) < length ?steps"
    and b: "cs_stepIdx (chat_mount init_chat_stream) < length ?steps"
    and c: "length [\<lambda>k. 10, \<lambda>k. 20, \<lambda>k. 30, \<lambda>k. 40, \<lambda>k. 50 :: nat]
              = firings (?steps ! cs_stepIdx (chat_mount init_chat_stream))"
    by (simp_all add: zero_counts)
  from step_count_contributions [OF ready_health a ready_mount b c]
  show ?thesis
    by (simp add: zero_counts ready_health ready_mount Let_def)
qed

theorem accepted_step_rejected_tag_counterexample:
  "buildSteps [\<lparr> tok_text = '' mass'', tok_type = Rejected \<rparr>]
     = [AcceptedStep \<lparr> tok_text = '' mass'', tok_type = Rejected \<rparr> 0] \<and>
   counts (fire_ref (buildSteps [\<lparr> tok_text = '' mass'', tok_type = Rejected \<rparr>])
             (health_effect False init_dashboard))
     = \<lparr> accepted = 0, rejected = 0, corrected = 0, drafted = 1 \<rparr> \<and>
   \<not> (accepted (counts (fire_ref (buildSteps [\<lparr> tok_text = '' mass'', tok_type = Rejected \<rparr>])
             (health_effect False init_dashboard)))
        = accepted (counts (health_effect False init_dashboard)) + 1 \<or>
      corrected (counts (fire_ref (buildSteps [\<lparr> tok_text = '' mass'', tok_type = Rejected \<rparr>])
             (health_effect False init_dashboard)))
        = corrected (counts (health_effect False init_dashboard)) + 1)"
proof -
  have b: "buildSteps [\<lparr> tok_text = '' mass'', tok_type = Rejected \<rparr>]
     = [AcceptedStep \<lparr> tok_text = '' mass'', tok_type = Rejected \<rparr> 0]"
    by (simp add: buildSteps_segment)
  have "counts (fire_ref [AcceptedStep \<lparr> tok_text = '' mass'', tok_type = Rejected \<rparr> 0]
             (health_effect False init_dashboard))
     = \<lparr> accepted = 0, rejected = 0, corrected = 0, drafted = 1 \<rparr>"
    using demo_accepted_firing(3) [OF ready_health, of "[AcceptedStep \<lparr> tok_text = '' mass'', tok_type = Rejected \<rparr> 0]"
        "\<lparr> tok_text = '' mass'', tok_type = Rejected \<rparr>" 0]
    by (simp add: zero_counts)
  then show ?thesis
    by (simp add: b zero_counts)
qed

section \<open>The worked example\<close>

lemma example_steps: "buildSteps example_tokens =
     [AcceptedStep \<lparr> tok_text = ''The'', tok_type = Accepted \<rparr> 0,
      AcceptedStep \<lparr> tok_text = '' theory'', tok_type = Accepted \<rparr> 1,
      RejectionStep \<lparr> tok_text = '' the early'', tok_type = Rejected \<rparr>
                    \<lparr> tok_text = '' 1905'', tok_type = Corrected \<rparr> 2 3]"
  by (simp add: buildSteps_segment example_tokens_def)

text \<open>
  Claim C9. On the four tokens of the worked example \<^verbatim>\<open>buildSteps\<close> gives two accepted
  steps and one rejection step, and the demo scheduler, let run on these steps until no
  timer is pending, ends complete and done with the three settled visible tokens
  \<open>The\<close>, \<open>theory\<close>, \<open>1905\<close> and the counts drafted 4, accepted 2, rejected 1,
  corrected 1.
\<close>

theorem worked_example:
  "buildSteps example_tokens =
     [AcceptedStep \<lparr> tok_text = ''The'', tok_type = Accepted \<rparr> 0,
      AcceptedStep \<lparr> tok_text = '' theory'', tok_type = Accepted \<rparr> 1,
      RejectionStep \<lparr> tok_text = '' the early'', tok_type = Rejected \<rparr>
                    \<lparr> tok_text = '' 1905'', tok_type = Corrected \<rparr> 2 3] \<and>
   (let s = run_demo 20 (buildSteps example_tokens) (health_effect False init_dashboard) in
      visibleTokens s =
        [\<lparr> vt_text = ''The'', vt_type = Accepted, vt_phase = Settled \<rparr>,
         \<lparr> vt_text = '' theory'', vt_type = Accepted, vt_phase = Settled \<rparr>,
         \<lparr> vt_text = '' 1905'', vt_type = Corrected, vt_phase = Settled \<rparr>] \<and>
      counts s = \<lparr> accepted = 2, rejected = 1, corrected = 1, drafted = 4 \<rparr> \<and>
      done_flag s \<and> phase s = Complete \<and> timers s = [] \<and> stepIdx s = 3)"
  unfolding example_steps
  by (simp add: run_demo_unfold demo_defs Let_def del: run_demo.simps)

section \<open>The queue chain invariant\<close>

lemma queue_inv_init: "queue_inv init_dashboard"
  by (simp add: queue_inv_def runs_bound_def chain_ok_def init_dashboard_def)

lemma queue_invI:
  assumes "\<And>i d cb r. (i, d, cb) \<in> set (timers s) \<Longrightarrow> run_of cb = Some r \<Longrightarrow> r < length (runs s)"
    and "\<And>r. r < length (runs s) \<Longrightarrow>
           length (chain_timers r (timers s)) \<le> (if processing (runs s ! r) then 1 else 0)"
  shows "queue_inv s"
  using assms
  by (auto simp: queue_inv_def runs_bound_def chain_ok_def list_all_iff split: option.splits)

lemma queue_invD1:
  "queue_inv s \<Longrightarrow> (i, d, cb) \<in> set (timers s) \<Longrightarrow> run_of cb = Some r \<Longrightarrow> r < length (runs s)"
  by (fastforce simp: queue_inv_def runs_bound_def list_all_iff split: option.splits)

lemma queue_invD2:
  "queue_inv s \<Longrightarrow> r < length (runs s) \<Longrightarrow>
   length (chain_timers r (timers s)) \<le> (if processing (runs s ! r) then 1 else 0)"
  by (simp add: queue_inv_def chain_ok_def list_all_iff)



lemma chain_timers_filter_le:
  "length (chain_timers r (filter P ts)) \<le> length (chain_timers r ts)"
  by (induction ts) (auto simp: chain_timers_def)

lemma chain_timers_append [simp]:
  "chain_timers r (ts @ us) = chain_timers r ts @ chain_timers r us"
  by (simp add: chain_timers_def)

lemma chain_timers_none:
  "(\<And>t. t \<in> set new \<Longrightarrow> chain_of (snd (snd t)) \<noteq> Some r) \<Longrightarrow> chain_timers r new = []"
  by (auto simp: chain_timers_def filter_empty_conv)

lemma queue_inv_frame:
  assumes inv: "queue_inv s"
    and len: "length (runs s') = length (runs s)"
    and pr: "\<And>r. r < length (runs s) \<Longrightarrow> processing (runs s' ! r) = processing (runs s ! r)"
    and tm: "timers s' = filter P (timers s) @ new"
    and n1: "\<And>t. t \<in> set new \<Longrightarrow> chain_of (snd (snd t)) = None"
    and n2: "\<And>t r. t \<in> set new \<Longrightarrow> run_of (snd (snd t)) = Some r \<Longrightarrow> r < length (runs s)"
  shows "queue_inv s'"
proof (rule queue_invI)
  fix i d cb r
  assume a: "(i, d, cb) \<in> set (timers s')" and b: "run_of cb = Some r"
  from a have "(i, d, cb) \<in> set (timers s) \<or> (i, d, cb) \<in> set new"
    by (auto simp: tm)
  then show "r < length (runs s')"
  proof
    assume "(i, d, cb) \<in> set (timers s)"
    from queue_invD1 [OF inv this b] show ?thesis by (simp add: len)
  next
    assume "(i, d, cb) \<in> set new"
    from n2 [OF this] b show ?thesis by (simp add: len)
  qed
next
  fix r
  assume r: "r < length (runs s')"
  have "chain_timers r new = []"
    by (rule chain_timers_none) (simp add: n1)
  then have "length (chain_timers r (timers s')) \<le> length (chain_timers r (timers s))"
    by (simp add: tm chain_timers_filter_le)
  also have "\<dots> \<le> (if processing (runs s ! r) then 1 else 0)"
    using queue_invD2 [OF inv] r by (simp add: len)
  also have "\<dots> = (if processing (runs s' ! r) then 1 else 0)"
    using pr r by (simp add: len)
  finally show "length (chain_timers r (timers s')) \<le> (if processing (runs s' ! r) then 1 else 0)" .
qed


lemma queue_inv_cong:
  "timers s' = timers s \<Longrightarrow> runs s' = runs s \<Longrightarrow> queue_inv s' = queue_inv s"
  by (simp add: queue_inv_def runs_bound_def chain_ok_def cong: option.case_cong)

lemma queue_inv_transfer:
  "queue_inv s \<Longrightarrow> timers s' = timers s \<Longrightarrow> runs s' = runs s \<Longrightarrow> queue_inv s'"
  by (simp add: queue_inv_def runs_bound_def chain_ok_def cong: option.case_cong)

lemma queue_inv_emit [simp]:
  "queue_inv (emitPacketForWords l color tx s) = queue_inv s"
  by (rule queue_inv_cong) simp_all

text \<open>One link of a run's queue chain: no chain timer of the run \<open>r\<close> is pending, and the
  step leaves the other runs' flags alone and either schedules nothing and may clear the
  flag of \<open>r\<close>, or schedules one chain timer of \<open>r\<close> with the flag of \<open>r\<close> set.\<close>

lemma queue_inv_chain_step:
  assumes inv: "queue_inv s" and r: "r < length (runs s)"
    and none: "chain_timers r (timers s) = []"
    and len: "length (runs s') = length (runs s)"
    and pr: "\<And>q. q < length (runs s) \<Longrightarrow> q \<noteq> r \<Longrightarrow> processing (runs s' ! q) = processing (runs s ! q)"
    and tm: "timers s' = timers s \<or>
             (\<exists>i d cb. timers s' = timers s @ [(i, d, cb)] \<and> run_of cb = Some r \<and> processing (runs s' ! r))"
  shows "queue_inv s'"
proof (rule queue_invI)
  fix i d cb q
  assume a: "(i, d, cb) \<in> set (timers s')" and b: "run_of cb = Some q"
  from tm a have "(i, d, cb) \<in> set (timers s) \<or> run_of cb = Some r"
    by auto
  then show "q < length (runs s')"
  proof
    assume "(i, d, cb) \<in> set (timers s)"
    from queue_invD1 [OF inv this b] show ?thesis by (simp add: len)
  next
    assume "run_of cb = Some r"
    with b r show ?thesis by (simp add: len)
  qed
next
  fix q
  assume q: "q < length (runs s')"
  show "length (chain_timers q (timers s')) \<le> (if processing (runs s' ! q) then 1 else 0)"
  proof (cases "q = r")
    case True
    from tm none show ?thesis
      by (auto simp: True chain_timers_def)
  next
    case False
    from tm have "length (chain_timers q (timers s')) \<le> length (chain_timers q (timers s))"
    proof
      assume "timers s' = timers s"
      then show ?thesis by simp
    next
      assume "\<exists>i d cb. timers s' = timers s @ [(i, d, cb)] \<and> run_of cb = Some r \<and> processing (runs s' ! r)"
      then obtain i d cb where t: "timers s' = timers s @ [(i, d, cb)]" and c: "run_of cb = Some r"
        by blast
      from c False have "chain_of cb \<noteq> Some q"
        by (cases cb) auto
      then show ?thesis by (simp add: t chain_timers_def)
    qed
    also have "\<dots> \<le> (if processing (runs s ! q) then 1 else 0)"
      using queue_invD2 [OF inv] q by (simp add: len)
    also have "\<dots> = (if processing (runs s' ! q) then 1 else 0)"
      using pr [of q] q False by (simp add: len)
    finally show ?thesis .
  qed
qed

lemma queue_inv_processTokenQueue:
  assumes "queue_inv s" "r < length (runs s)" "chain_timers r (timers s) = []"
  shows "queue_inv (processTokenQueue r s)"
proof (rule queue_inv_chain_step [OF assms])
  show "length (runs (processTokenQueue r s)) = length (runs s)"
    by (simp add: processTokenQueue_def upd_run_def Let_def split: list.splits token_type.splits)
  show "processing (runs (processTokenQueue r s) ! q) = processing (runs s ! q)"
    if "q < length (runs s)" "q \<noteq> r" for q
    using that
    by (simp add: processTokenQueue_def upd_run_def Let_def split: list.splits token_type.splits)
  show "timers (processTokenQueue r s) = timers s \<or>
        (\<exists>i d cb. timers (processTokenQueue r s) = timers s @ [(i, d, cb)] \<and> run_of cb = Some r \<and>
           processing (runs (processTokenQueue r s) ! r))"
    using assms(2)
    by (simp add: processTokenQueue_def upd_run_def Let_def split: list.splits token_type.splits)
qed

lemma queue_inv_link:
  assumes "queue_inv s" "r < length (runs s)" "chain_timers r (timers s) = []"
    "processing (runs s ! r)" "run_of cb = Some r"
  shows "queue_inv (setTimeout cb d (s\<lparr> visibleTokens := v \<rparr>))"
  by (rule queue_inv_chain_step [OF assms(1-3)]) (simp_all add: assms)


lemma queue_inv_clearTimeout: "queue_inv s \<Longrightarrow> queue_inv (clearTimeout tid s)"
  by (rule queue_inv_frame [where new = "[]" and P = "\<lambda>t. fst t \<noteq> tid"]) simp_all

lemma queue_inv_other_timer:
  assumes "queue_inv s" "chain_of cb = None" "\<And>r. run_of cb = Some r \<Longrightarrow> r < length (runs s)"
    "timers s' = timers s @ [(i, d, cb)]" "runs s' = runs s"
  shows "queue_inv s'"
  by (rule queue_inv_frame [OF assms(1), where new = "[(i, d, cb)]" and P = "\<lambda>t. True"])
     (simp_all add: assms)

lemma queue_inv_setTimeout_ref:
  "queue_inv s \<Longrightarrow> chain_of cb = None \<Longrightarrow> run_of cb = None \<Longrightarrow> queue_inv (setTimeout_ref cb d s)"
  by (rule queue_inv_other_timer [where cb = cb and i = "nextTimer s" and d = d]) simp_all

lemma queue_inv_schedule_other:
  assumes "queue_inv s" "timers s1 = timers s" "runs s1 = runs s" "chain_of cb = None" "run_of cb = None"
  shows "queue_inv (setTimeout_ref cb d s1)"
proof -
  from assms(1-3) have "queue_inv s1" by (rule queue_inv_transfer)
  from queue_inv_setTimeout_ref [OF this assms(4,5)] show ?thesis .
qed

lemma queue_inv_processDemoStep:
  assumes "queue_inv s"
  shows "queue_inv (processDemoStep steps s)"
proof (cases "length steps \<le> stepIdx s")
  case True
  then have e: "processDemoStep steps s = s\<lparr> done_flag := True, phase := Complete \<rparr>"
    by (simp add: processDemoStep_def)
  show ?thesis unfolding e by (rule queue_inv_transfer [OF assms]) simp_all
next
  case False
  show ?thesis
  proof (cases "steps ! stepIdx s")
    case (AcceptedStep tok idx)
    with False show ?thesis
      unfolding processDemoStep_def Let_def
      by (simp add: queue_inv_schedule_other [OF assms])
  next
    case (RejectionStep rej corr i j)
    with False show ?thesis
      unfolding processDemoStep_def Let_def
      by (simp add: queue_inv_schedule_other [OF assms])
  qed
qed

lemma queue_inv_demo_chain:
  assumes "queue_inv s"
  shows "queue_inv (demoStrike rej corr s)"
    and "queue_inv (demoHide rej corr s)"
    and "queue_inv (demoCorrect rej corr s)"
    and "queue_inv (demoSettle s)"
  unfolding demoStrike_def demoHide_def demoCorrect_def demoSettle_def Let_def
  by (simp_all add: queue_inv_schedule_other [OF assms])

lemma queue_inv_checkDone:
  assumes "queue_inv s" "r < length (runs s)"
  shows "queue_inv (checkDone r s)"
proof (cases "tokenQueue (runs s ! r) = [] \<and> \<not> processing (runs s ! r)")
  case True
  then have e: "checkDone r s = s\<lparr> done_flag := True, phase := Complete, isStreaming := False \<rparr>"
    by (simp add: checkDone_def)
  show ?thesis unfolding e by (rule queue_inv_transfer [OF assms(1)]) simp_all
next
  case False
  then have e: "checkDone r s = setTimeout (CheckDone r) 100 s"
    by (auto simp: checkDone_def)
  show ?thesis
    unfolding e
    by (rule queue_inv_other_timer [OF assms(1), where cb = "CheckDone r" and i = "nextTimer s" and d = 100])
       (simp_all add: assms)
qed

lemma chain_timers_filter: "chain_timers r (filter P ts) = filter P (chain_timers r ts)"
  by (induction ts) (auto simp: chain_timers_def)

lemma pending_chain_timer:
  assumes inv: "queue_inv s" and f: "find (\<lambda>t. fst t = tid) (timers s) = Some (i, d, cb)"
    and c: "chain_of cb = Some r"
  shows "r < length (runs s)" "processing (runs s ! r)"
    "chain_timers r (filter (\<lambda>t. fst t \<noteq> tid) (timers s)) = []"
proof -
  from f [unfolded find_Some_iff]
  obtain k where k: "k < length (timers s)" "fst (timers s ! k) = tid" "(i, d, cb) = timers s ! k"
    by blast
  from k(2) k(3) [symmetric] have i: "i = tid" by simp
  from k(1,3) have m: "(i, d, cb) \<in> set (timers s)" by (metis nth_mem)
  from c have "run_of cb = Some r" by (cases cb) auto
  from queue_invD1 [OF inv m this] show r: "r < length (runs s)" .
  from m c have mem: "(i, d, cb) \<in> set (chain_timers r (timers s))"
    by (simp add: chain_timers_def)
  then have pos: "0 < length (chain_timers r (timers s))"
    by (cases "chain_timers r (timers s)") auto
  with queue_invD2 [OF inv r] show p: "processing (runs s ! r)"
    by (simp split: if_splits)
  with queue_invD2 [OF inv r] have "length (chain_timers r (timers s)) \<le> 1"
    by simp
  with pos have "length (chain_timers r (timers s)) = 1"
    by linarith
  then obtain t where "chain_timers r (timers s) = [t]"
    by (auto simp: length_Suc_conv)
  with mem i show "chain_timers r (filter (\<lambda>t. fst t \<noteq> tid) (timers s)) = []"
    by (auto simp: chain_timers_filter)
qed


lemma queue_inv_upd_run:
  assumes "queue_inv s" "\<And>q. processing (f q) = processing q"
  shows "queue_inv (upd_run r f s)"
proof (rule queue_inv_frame [OF assms(1), where new = "[]" and P = "\<lambda>t. True"])
  show "processing (runs (upd_run r f s) ! q) = processing (runs s ! q)" if "q < length (runs s)" for q
    using that by (cases "r < length (runs s)") (simp_all add: upd_run_def nth_list_update assms(2))
qed (simp_all add: upd_run_def)

lemma queue_inv_new_run:
  assumes "queue_inv s"
  shows "queue_inv (s\<lparr> runs := runs s @ [\<lparr> tokenQueue = [], processing = False, transportOpen = True \<rparr>] \<rparr>)"
proof (rule queue_invI)
  fix i d cb r
  assume "(i, d, cb) \<in> set (timers (s\<lparr> runs := runs s @ [\<lparr> tokenQueue = [], processing = False, transportOpen = True \<rparr>] \<rparr>))"
    and "run_of cb = Some r"
  with queue_invD1 [OF assms, of i d cb r]
  show "r < length (runs (s\<lparr> runs := runs s @ [\<lparr> tokenQueue = [], processing = False, transportOpen = True \<rparr>] \<rparr>))"
    by simp
next
  fix r
  assume r: "r < length (runs (s\<lparr> runs := runs s @ [\<lparr> tokenQueue = [], processing = False, transportOpen = True \<rparr>] \<rparr>))"
  show "length (chain_timers r (timers (s\<lparr> runs := runs s @ [\<lparr> tokenQueue = [], processing = False, transportOpen = True \<rparr>] \<rparr>)))
      \<le> (if processing (runs (s\<lparr> runs := runs s @ [\<lparr> tokenQueue = [], processing = False, transportOpen = True \<rparr>] \<rparr>) ! r)
          then 1 else 0)"
  proof (cases "r < length (runs s)")
    case True
    with queue_invD2 [OF assms True] show ?thesis
      by (simp add: nth_append)
  next
    case False
    have "chain_timers r (timers s) = []"
    proof (rule chain_timers_none)
      fix t
      assume t: "t \<in> set (timers s)"
      obtain i d cb where e: "t = (i, d, cb)" by (cases t)
      show "chain_of (snd (snd t)) \<noteq> Some r"
      proof
        assume "chain_of (snd (snd t)) = Some r"
        then have "run_of cb = Some r" by (cases cb) (auto simp: e)
        from queue_invD1 [OF assms t [unfolded e] this] False show False by simp
      qed
    qed
    then show ?thesis by simp
  qed
qed

lemma queue_inv_handleSubmit: "queue_inv s \<Longrightarrow> queue_inv (handleSubmit p now s)"
proof -
  assume inv: "queue_inv s"
  let ?s1 = "s\<lparr> prompt := p, visibleTokens := [], done_flag := False,
                  counts := \<lparr> accepted = 0, rejected = 0, corrected = 0, drafted = 0 \<rparr>,
                  phase := Idle, isStreaming := True,
                  totalInferenceTimeSavedMs := js_of_int 0, costSavingsDollars := js_of_int 0,
                  packetWordBuffer := \<lparr> draft = 0, verify = 0 \<rparr>,
                  streamStartMs := now, generatedOutputTokens := 0, acceptedDraftTokens := 0 \<rparr>"
  let ?s2 = "case timeoutRef ?s1 of None \<Rightarrow> ?s1
             | Some tid \<Rightarrow> if tid \<noteq> 0 then clearTimeout tid ?s1 else ?s1"
  let ?s3 = "case cleanupRef ?s2 of None \<Rightarrow> ?s2 | Some r \<Rightarrow> cleanup r ?s2"
  let ?s4 = "?s3\<lparr> runs := runs ?s3 @ [\<lparr> tokenQueue = [], processing = False, transportOpen = True \<rparr>] \<rparr>"
  have 1: "queue_inv ?s1"
    by (rule queue_inv_transfer [OF inv]) simp_all
  have 2: "queue_inv ?s2"
    using 1 by (auto split: option.splits intro: queue_inv_clearTimeout)
  have 3: "queue_inv ?s3"
    using 2 by (auto split: option.splits simp: cleanup_def intro!: queue_inv_upd_run)
  have 4: "queue_inv ?s4"
    by (rule queue_inv_new_run [OF 3])
  have "queue_inv (?s4\<lparr> cleanupRef := Some (length (runs ?s3)) \<rparr>)"
    by (rule queue_inv_transfer [OF 4]) simp_all
  then show ?thesis
    by (simp add: handleSubmit_def Let_def)
qed


lemma queue_inv_onMessage:
  assumes inv: "queue_inv s" and r: "r < length (runs s)"
  shows "queue_inv (onMessage r msg s)"
proof (cases msg)
  case (TokenMsg d)
  let ?s1 = "if te_type d = Accepted
             then updateLiveSavingsFromAcceptedTokens (s\<lparr> acceptedDraftTokens := acceptedDraftTokens s + 1 \<rparr>)
             else s"
  let ?s2 = "if te_type d = Accepted \<or> te_type d = Corrected
             then ?s1\<lparr> generatedOutputTokens := generatedOutputTokens ?s1 + 1 \<rparr> else ?s1"
  let ?s3 = "upd_run r (\<lambda>q. q\<lparr> tokenQueue := tokenQueue q @ [d] \<rparr>) ?s2"
  have 2: "queue_inv ?s2"
    by (rule queue_inv_transfer [OF inv]) (simp_all add: updateLiveSavingsFromAcceptedTokens_def)
  have 3: "queue_inv ?s3"
    by (rule queue_inv_upd_run [OF 2]) simp
  have l: "r < length (runs ?s3)"
    using r by (simp add: upd_run_def updateLiveSavingsFromAcceptedTokens_def)
  have "queue_inv (if \<not> processing (runs ?s3 ! r) then processTokenQueue r ?s3 else ?s3)"
  proof (cases "processing (runs ?s3 ! r)")
    case True
    with 3 show ?thesis by simp
  next
    case False
    with queue_invD2 [OF 3 l] have "chain_timers r (timers ?s3) = []"
      by simp
    from queue_inv_processTokenQueue [OF 3 l this] False show ?thesis
      by simp
  qed
  then show ?thesis
    by (simp add: onMessage_def TokenMsg Let_def)
next
  case (RoundMsg d)
  have "queue_inv (s\<lparr> acceptanceRate := js_mul (re_acceptance_rate d) (js_of_int 100) \<rparr>)"
    by (rule queue_inv_transfer [OF inv]) simp_all
  then show ?thesis by (simp add: onMessage_def RoundMsg)
next
  case (DoneMsg d)
  let ?s3 = "updateLiveSavingsFromAcceptedTokens
               (s\<lparr> acceptanceRate := js_mul (ir_acceptance_rate d) (js_of_int 100),
                   acceptedDraftTokens := ir_draft_tokens_accepted d \<rparr>)"
  have 3: "queue_inv ?s3"
    by (rule queue_inv_transfer [OF inv]) (simp_all add: updateLiveSavingsFromAcceptedTokens_def)
  have "r < length (runs ?s3)"
    using r by (simp add: updateLiveSavingsFromAcceptedTokens_def)
  from queue_inv_checkDone [OF 3 this] show ?thesis
    by (simp add: onMessage_def DoneMsg Let_def)
next
  case (ErrorMsg m)
  have "queue_inv (s\<lparr> done_flag := True, phase := Idle, isStreaming := False \<rparr>)"
    by (rule queue_inv_transfer [OF inv]) simp_all
  then show ?thesis by (simp add: onMessage_def ErrorMsg)
qed

lemma queue_inv_fire:
  assumes inv: "queue_inv s"
  shows "queue_inv (fire steps tid s)"
proof (cases "find (\<lambda>t. fst t = tid) (timers s)")
  case None
  with inv show ?thesis by (simp add: fire_def)
next
  case (Some e)
  obtain i d cb where e: "e = (i, d, cb)" by (cases e)
  note f = Some [unfolded e]
  let ?s0 = "clearTimeout tid s"
  have 0: "queue_inv ?s0" by (rule queue_inv_clearTimeout [OF inv])
  have fire: "fire steps tid s = run_callback steps cb ?s0"
    by (simp add: fire_def f)
  have chain: "r < length (runs ?s0) \<and> processing (runs ?s0 ! r) \<and> chain_timers r (timers ?s0) = []"
    if "chain_of cb = Some r" for r
    using pending_chain_timer [OF inv f that] by simp
  have link: "queue_inv (setTimeout cb' d' (?s0\<lparr> visibleTokens := v \<rparr>))"
    if "chain_of cb = Some r" "run_of cb' = Some r" for r cb' d' v
    using chain [OF that(1)] by (intro queue_inv_link [OF 0, of r]) (simp_all add: that(2))
  have ptq: "queue_inv (processTokenQueue r s')"
    if "chain_of cb = Some r" "timers s' = timers ?s0" "runs s' = runs ?s0" for r s'
  proof -
    from queue_inv_transfer [OF 0 that(2,3)] have "queue_inv s'" .
    moreover from chain [OF that(1)] that(2,3) have "r < length (runs s')" "chain_timers r (timers s') = []"
      by simp_all
    ultimately show ?thesis by (rule queue_inv_processTokenQueue)
  qed
  show ?thesis
  proof (cases cb)
    case ProcessDemoStep
    then show ?thesis by (simp add: fire run_callback_def queue_inv_processDemoStep [OF 0])
  next
    case (DemoStrike rej corr)
    then show ?thesis by (simp add: fire run_callback_def queue_inv_demo_chain [OF 0])
  next
    case (DemoHide rej corr)
    then show ?thesis by (simp add: fire run_callback_def queue_inv_demo_chain [OF 0])
  next
    case (DemoCorrect rej corr)
    then show ?thesis by (simp add: fire run_callback_def queue_inv_demo_chain [OF 0])
  next
    case DemoSettle
    then show ?thesis by (simp add: fire run_callback_def queue_inv_demo_chain [OF 0])
  next
    case (ProcessTokenQueue r)
    then have "queue_inv (processTokenQueue r ?s0)" by (intro ptq) simp_all
    then show ?thesis by (simp add: fire run_callback_def ProcessTokenQueue)
  next
    case (LiveStrike r)
    then have "queue_inv (liveStrike r ?s0)"
      unfolding liveStrike_def by (intro link [of r]) simp_all
    then show ?thesis by (simp add: fire run_callback_def LiveStrike)
  next
    case (LiveHide r)
    then have "queue_inv (liveHide r ?s0)"
      unfolding liveHide_def by (intro link [of r]) simp_all
    then show ?thesis by (simp add: fire run_callback_def LiveHide)
  next
    case (LiveFilter r)
    then have "queue_inv (liveFilter r ?s0)"
      unfolding liveFilter_def by (intro ptq) simp_all
    then show ?thesis by (simp add: fire run_callback_def LiveFilter)
  next
    case (LiveSettle r)
    then have "queue_inv (liveSettle r ?s0)"
      unfolding liveSettle_def by (intro link [of r]) simp_all
    then show ?thesis by (simp add: fire run_callback_def LiveSettle)
  next
    case (CheckDone r)
    from f have "(i, d, cb) \<in> set (timers s)"
      unfolding find_Some_iff by (metis nth_mem)
    from queue_invD1 [OF inv this, of r] CheckDone have "r < length (runs ?s0)" by simp
    from queue_inv_checkDone [OF 0 this] show ?thesis
      by (simp add: fire run_callback_def CheckDone)
  qed
qed

lemma queue_inv_apply_event:
  assumes inv: "queue_inv s"
  shows "queue_inv (apply_event steps ev s)"
proof (cases ev)
  case (Health online)
  have "queue_inv (s\<lparr> backendOnline := Some online \<rparr>)"
    by (rule queue_inv_transfer [OF inv]) simp_all
  moreover have "queue_inv (setTimeout_ref ProcessDemoStep INITIAL_DELAY
      (s\<lparr> backendOnline := Some online, packetWordBuffer := \<lparr> draft = 0, verify = 0 \<rparr> \<rparr>))"
    by (rule queue_inv_schedule_other [OF inv]) simp_all
  ultimately show ?thesis
    by (cases online) (simp_all add: apply_event_def Health health_effect_def Let_def)
next
  case (Submit p now)
  with inv show ?thesis by (simp add: apply_event_def queue_inv_handleSubmit)
next
  case (Message r msg)
  with inv show ?thesis by (simp add: apply_event_def queue_inv_onMessage)
next
  case (TransportError r)
  have "queue_inv (onError s)"
    unfolding onError_def by (rule queue_inv_transfer [OF inv]) simp_all
  with inv show ?thesis by (simp add: apply_event_def TransportError)
next
  case (TransportClose r)
  have "queue_inv (upd_run r (\<lambda>q. q\<lparr> transportOpen := False \<rparr>) s)"
    by (rule queue_inv_upd_run [OF inv]) simp
  then have "queue_inv (onClose (upd_run r (\<lambda>q. q\<lparr> transportOpen := False \<rparr>) s))"
    unfolding onClose_def by (rule queue_inv_transfer) simp_all
  with inv show ?thesis by (simp add: apply_event_def TransportClose)
next
  case (Fire tid)
  with inv show ?thesis by (simp add: apply_event_def queue_inv_fire)
next
  case (PacketDone i)
  have "queue_inv (handlePacketDone i s)"
    unfolding handlePacketDone_def by (rule queue_inv_transfer [OF inv]) simp_all
  then show ?thesis by (simp add: apply_event_def PacketDone)
qed

lemma reachable_queue_inv: "reachable steps s \<Longrightarrow> queue_inv s"
  by (induction rule: reachable.induct) (simp_all add: queue_inv_init queue_inv_apply_event)

lemma run_quiescent:
  assumes "reachable steps s" "r < length (runs s)" "\<not> processing (runs s ! r)"
  shows "chain_timers r (timers s) = []"
  using queue_invD2 [OF reachable_queue_inv [OF assms(1)] assms(2)] assms(3) by simp

section \<open>Restart and terminal behaviour\<close>

text \<open>The terminal firing of the demo sets \<^verbatim>\<open>done\<close> and the phase complete and schedules
  nothing; firing the timeout ref again does nothing.\<close>

lemma find_filtered_out: "find (\<lambda>t. fst t = tid) (filter (\<lambda>t. fst t \<noteq> tid) ts) = None"
  by (induction ts) auto

lemma demo_terminal_firing:
  assumes "ready ProcessDemoStep s" "length steps \<le> stepIdx s"
  shows "done_flag (fire_ref steps s)"
    and "phase (fire_ref steps s) = Complete"
    and "timers (fire_ref steps s) = filter (\<lambda>t. fst t \<noteq> the (timeoutRef s)) (timers s)"
    and "fire_ref steps (fire_ref steps s) = fire_ref steps s"
proof -
  from assms(1) obtain tid where t: "timeoutRef s = Some tid"
    by (auto simp: ready_def pending_def split: option.splits)
  have e: "fire_ref steps s = (clearTimeout tid s)\<lparr> done_flag := True, phase := Complete \<rparr>"
    using assms t by (simp add: fire_ref_ready run_callback_def processDemoStep_def)
  show "done_flag (fire_ref steps s)" "phase (fire_ref steps s) = Complete"
    by (simp_all add: e)
  show "timers (fire_ref steps s) = filter (\<lambda>t. fst t \<noteq> the (timeoutRef s)) (timers s)"
    by (simp add: e t)
  show "fire_ref steps (fire_ref steps s) = fire_ref steps s"
    unfolding e by (simp add: fire_ref_def fire_def t find_filtered_out)
qed

text \<open>When the \<^verbatim>\<open>done\<close> handling finishes the run \<open>r\<close> (queue empty, not processing), it
  schedules nothing, and in a reachable state no timer of that run's queue chain is
  pending.\<close>

lemma live_terminal_quiescent:
  assumes "reachable steps s" "r < length (runs s)"
    "tokenQueue (runs s ! r) = []" "\<not> processing (runs s ! r)"
  shows "checkDone r s = s\<lparr> done_flag := True, phase := Complete, isStreaming := False \<rparr>"
    and "chain_timers r (timers (checkDone r s)) = []"
proof -
  show e: "checkDone r s = s\<lparr> done_flag := True, phase := Complete, isStreaming := False \<rparr>"
    using assms(3,4) by (simp add: checkDone_def)
  show "chain_timers r (timers (checkDone r s)) = []"
    unfolding e using run_quiescent [OF assms(1,2,4)] by simp
qed

text \<open>A submit does cancel the timer whose id \<^verbatim>\<open>timeoutRef\<close> holds, which is how the demo's
  timers are cancelled.\<close>

lemma handleSubmit_clears_ref_timer:
  "timeoutRef s = Some tid \<Longrightarrow> tid \<noteq> 0 \<Longrightarrow>
   timers (handleSubmit p now s) = filter (\<lambda>t. fst t \<noteq> tid) (timers s)"
  by (simp add: handleSubmit_def Let_def cleanup_def upd_run_def clearTimeout_def split: option.splits)

text \<open>
  Claim C3, evaluated on the code. A first run is left with a pending animation timer and a
  queued token when its \<^verbatim>\<open>error\<close> message re-enables the input. The second submit seeds
  the new state and calls the first run's cleanup, but the pending timer of the first run
  stays pending: it is not the timer in \<^verbatim>\<open>timeoutRef\<close>. When the first run's timers then
  fire, its queued token is appended to the new run's visible tokens, counted in the new
  run's counts and sets the new run's phase, although the new run has received no message.
\<close>

theorem stale_callbacks_after_resubmit:
  "(let s1 = run_events DEMO_STEPS first_run init_dashboard;
        s2 = apply_event DEMO_STEPS (Submit ''second'' 1000) s1;
        s3 = run_events DEMO_STEPS [Fire 2, Fire 3] s2
    in \<not> input_disabled s1 \<and>
       visibleTokens s2 = [] \<and> phase s2 = Idle \<and>
       counts s2 = \<lparr> accepted = 0, rejected = 0, corrected = 0, drafted = 0 \<rparr> \<and>
       cleanupRef s2 = Some 1 \<and> \<not> transportOpen (runs s2 ! 0) \<and>
       timers s2 = [(2, STRIKE_PAUSE, LiveHide 0)] \<and>
       tokenQueue (runs s3 ! 1) = [] \<and> \<not> processing (runs s3 ! 1) \<and>
       visibleTokens s3 = [\<lparr> vt_text = '' 1905'', vt_type = Corrected, vt_phase = Appearing \<rparr>] \<and>
       counts s3 = \<lparr> accepted = 0, rejected = 0, corrected = 1, drafted = 1 \<rparr> \<and>
       phase s3 = Correcting)"
  by (simp add: live_defs first_run_def ev_rejected_def ev_corrected_def Let_def)

text \<open>
  Claim C4, evaluated on the code. After the same restart the second run receives its
  \<^verbatim>\<open>done\<close> message with an empty queue and reaches phase complete with \<^verbatim>\<open>done\<close> set.
  Without any further submit, the first run's pending timers fire and its queued token
  changes the phase, the visible tokens and the counts.
\<close>

theorem stale_callbacks_after_complete:
  "(let s1 = run_events DEMO_STEPS
               (first_run @ [Submit ''second'' 1000, Message 1 (DoneMsg done_example)]) init_dashboard;
        s2 = run_events DEMO_STEPS [Fire 2, Fire 3] s1
    in done_flag s1 \<and> phase s1 = Complete \<and> visibleTokens s1 = [] \<and>
       counts s1 = \<lparr> accepted = 0, rejected = 0, corrected = 0, drafted = 0 \<rparr> \<and>
       done_flag s2 \<and> phase s2 = Correcting \<and>
       visibleTokens s2 = [\<lparr> vt_text = '' 1905'', vt_type = Corrected, vt_phase = Appearing \<rparr>] \<and>
       counts s2 = \<lparr> accepted = 0, rejected = 0, corrected = 1, drafted = 1 \<rparr>)"
  by (simp add: live_defs first_run_def ev_rejected_def ev_corrected_def done_example_def Let_def)


end
